theory Spec2Isabelle
  imports Main "HOL-Library.Monad_Syntax" "HOL-Library.List_Lexorder" "HOL-Library.Char_ord"
begin

section \<open>The store: nodes, pointers and the tree header\<close>

text \<open>
  The Go package keeps its nodes on the garbage-collected heap and links them with
  \<^verbatim>\<open>*Node\<close> pointers. A pointer is modelled as an optional address (\<open>None\<close> is
  \<^verbatim>\<open>nil\<close>), the heap as a partial map from addresses to node records, and the allocator as
  a counter of the next unused address. Keys are Go strings, compared bytewise in
  lexicographic order, which is the order of \<open>string\<close> here. The element counter is a Go
  \<^verbatim>\<open>int\<close>; it counts live nodes, whose number is bounded by the address space, so it is
  modelled as an unbounded integer.

  Every operation returns an \<open>option\<close>: \<open>None\<close> means that the Go code does not return
  normally (it dereferences \<^verbatim>\<open>nil\<close> and panics, or a loop never ends).
\<close>

datatype Color = red | black

type_synonym ref = "nat option"

record 'v Node =
  Key :: string
  Value :: 'v
  Color :: Color
  Parent :: ref
  Left :: ref
  Right :: ref

record 'v Tree =
  heap :: "nat \<Rightarrow> 'v Node option"
  fresh :: nat
  root :: ref
  size_of :: int

definition New :: "'v Tree" where
  "New = \<lparr>heap = (\<lambda>_. None), fresh = 0, root = None, size_of = 0\<rparr>"

definition Size :: "'v Tree \<Rightarrow> int" where
  "Size t = size_of t"

definition Root :: "'v Tree \<Rightarrow> ref" where
  "Root t = root t"

text \<open>Reading the node behind a pointer; \<open>load t p\<close> is \<open>None\<close> when \<open>p\<close> is nil.\<close>

definition load :: "'v Tree \<Rightarrow> ref \<Rightarrow> 'v Node option" where
  "load t p = (case p of None \<Rightarrow> None | Some a \<Rightarrow> heap t a)"

text \<open>The field access \<^verbatim>\<open>p.F\<close>.\<close>

definition get :: "'v Tree \<Rightarrow> ref \<Rightarrow> ('v Node \<Rightarrow> 'a) \<Rightarrow> 'a option" where
  "get t p f = map_option f (load t p)"

text \<open>The field assignment \<^verbatim>\<open>p.F = x\<close>, given as an update of the node record.\<close>

definition put :: "'v Tree \<Rightarrow> ref \<Rightarrow> ('v Node \<Rightarrow> 'v Node) \<Rightarrow> 'v Tree option" where
  "put t p f =
     (case p of None \<Rightarrow> None
      | Some a \<Rightarrow> (case heap t a of None \<Rightarrow> None
                   | Some n \<Rightarrow> Some (t\<lparr>heap := (heap t)(a := Some (f n))\<rparr>)))"

section \<open>Helpers\<close>

definition colorOf :: "'v Tree \<Rightarrow> ref \<Rightarrow> Color option" where
  "colorOf t node = (if node = None then Some black else get t node Color)"

definition leftOf :: "'v Tree \<Rightarrow> ref \<Rightarrow> ref option" where
  "leftOf t node = (if node = None then Some None else get t node Left)"

definition rightOf :: "'v Tree \<Rightarrow> ref \<Rightarrow> ref option" where
  "rightOf t node = (if node = None then Some None else get t node Right)"

partial_function (option) minimum :: "'v Tree \<Rightarrow> ref \<Rightarrow> ref option" where
  "minimum t node =
     do { l \<leftarrow> get t node Left;
          if l \<noteq> None then minimum t l else Some node }"

text \<open>
  \<^verbatim>\<open>inOrder(node, fn)\<close>: the visitor acts on the caller's own state, here an
  accumulator of any type that each call transforms.
\<close>

partial_function (option) inOrder ::
    "'v Tree \<Rightarrow> ref \<Rightarrow> (string \<Rightarrow> 'v \<Rightarrow> 'a \<Rightarrow> 'a) \<Rightarrow> 'a \<Rightarrow> 'a option" where
  "inOrder t node fn acc =
     (if node = None then Some acc
      else do {
        l \<leftarrow> get t node Left;
        acc \<leftarrow> inOrder t l fn acc;
        k \<leftarrow> get t node Key;
        v \<leftarrow> get t node Value;
        r \<leftarrow> get t node Right;
        inOrder t r fn (fn k v acc) })"

definition InOrder :: "'v Tree \<Rightarrow> (string \<Rightarrow> 'v \<Rightarrow> 'a \<Rightarrow> 'a) \<Rightarrow> 'a \<Rightarrow> 'a option" where
  "InOrder t fn acc = inOrder t (root t) fn acc"

section \<open>Rotations and transplant\<close>

definition rotateLeft :: "'v Tree \<Rightarrow> ref \<Rightarrow> 'v Tree option" where
  "rotateLeft t node =
     do { right \<leftarrow> get t node Right;
          rl \<leftarrow> get t right Left;
          t \<leftarrow> put t node (\<lambda>n. n\<lparr>Right := rl\<rparr>);
          rl \<leftarrow> get t right Left;
          t \<leftarrow> (if rl \<noteq> None then put t rl (\<lambda>n. n\<lparr>Parent := node\<rparr>) else Some t);
          np \<leftarrow> get t node Parent;
          t \<leftarrow> put t right (\<lambda>n. n\<lparr>Parent := np\<rparr>);
          np \<leftarrow> get t node Parent;
          t \<leftarrow> (if np = None then Some (t\<lparr>root := right\<rparr>)
                else do { npl \<leftarrow> get t np Left;
                          if node = npl then put t np (\<lambda>n. n\<lparr>Left := right\<rparr>)
                          else put t np (\<lambda>n. n\<lparr>Right := right\<rparr>) });
          t \<leftarrow> put t right (\<lambda>n. n\<lparr>Left := node\<rparr>);
          put t node (\<lambda>n. n\<lparr>Parent := right\<rparr>) }"

definition rotateRight :: "'v Tree \<Rightarrow> ref \<Rightarrow> 'v Tree option" where
  "rotateRight t node =
     do { left \<leftarrow> get t node Left;
          lr \<leftarrow> get t left Right;
          t \<leftarrow> put t node (\<lambda>n. n\<lparr>Left := lr\<rparr>);
          lr \<leftarrow> get t left Right;
          t \<leftarrow> (if lr \<noteq> None then put t lr (\<lambda>n. n\<lparr>Parent := node\<rparr>) else Some t);
          np \<leftarrow> get t node Parent;
          t \<leftarrow> put t left (\<lambda>n. n\<lparr>Parent := np\<rparr>);
          np \<leftarrow> get t node Parent;
          t \<leftarrow> (if np = None then Some (t\<lparr>root := left\<rparr>)
                else do { npr \<leftarrow> get t np Right;
                          if node = npr then put t np (\<lambda>n. n\<lparr>Right := left\<rparr>)
                          else put t np (\<lambda>n. n\<lparr>Left := left\<rparr>) });
          t \<leftarrow> put t left (\<lambda>n. n\<lparr>Right := node\<rparr>);
          put t node (\<lambda>n. n\<lparr>Parent := left\<rparr>) }"

definition transplant :: "'v Tree \<Rightarrow> ref \<Rightarrow> ref \<Rightarrow> 'v Tree option" where
  "transplant t u v =
     do { up \<leftarrow> get t u Parent;
          t \<leftarrow> (if up = None then Some (t\<lparr>root := v\<rparr>)
                else do { upl \<leftarrow> get t up Left;
                          if u = upl then put t up (\<lambda>n. n\<lparr>Left := v\<rparr>)
                          else put t up (\<lambda>n. n\<lparr>Right := v\<rparr>) });
          if v \<noteq> None
          then do { up \<leftarrow> get t u Parent; put t v (\<lambda>n. n\<lparr>Parent := up\<rparr>) }
          else Some t }"

section \<open>Search\<close>

partial_function (option) search_loop :: "'v Tree \<Rightarrow> string \<Rightarrow> ref \<Rightarrow> ref option" where
  "search_loop t key cur =
     (if cur \<noteq> None
      then do { k \<leftarrow> get t cur Key;
                if key < k then do { l \<leftarrow> get t cur Left; search_loop t key l }
                else if key > k then do { r \<leftarrow> get t cur Right; search_loop t key r }
                else Some cur }
      else Some None)"

definition Search :: "'v Tree \<Rightarrow> string \<Rightarrow> ref option" where
  "Search t key = search_loop t key (root t)"

section \<open>Insert\<close>

text \<open>
  \<^verbatim>\<open>insertFixup\<close>. Each path expression such as \<^verbatim>\<open>node.Parent.Parent\<close> is read
  from the store at the point where the Go code evaluates it. On the side where the
  parent is a left child the Go code compares \<^verbatim>\<open>node\<close> with
  \<^verbatim>\<open>node.Parent.Parent.Right\<close> before the rotation of case 2, and the model does the same.
\<close>

partial_function (option) insertFixup :: "'v Tree \<Rightarrow> ref \<Rightarrow> 'v Tree option" where
  "insertFixup t node =
     do { continue \<leftarrow> (if node \<noteq> root t
                        then do { p \<leftarrow> get t node Parent; c \<leftarrow> colorOf t p; Some (c = red) }
                        else Some False);
          if continue
          then do {
            p \<leftarrow> get t node Parent;
            g \<leftarrow> get t p Parent;
            gl \<leftarrow> get t g Left;
            if p = gl
            then do {
              uncle \<leftarrow> get t g Right;
              cu \<leftarrow> colorOf t uncle;
              if cu = red
              then do {
                p \<leftarrow> get t node Parent;
                t \<leftarrow> put t p (\<lambda>n. n\<lparr>Color := black\<rparr>);
                t \<leftarrow> put t uncle (\<lambda>n. n\<lparr>Color := black\<rparr>);
                p \<leftarrow> get t node Parent;
                g \<leftarrow> get t p Parent;
                t \<leftarrow> put t g (\<lambda>n. n\<lparr>Color := red\<rparr>);
                p \<leftarrow> get t node Parent;
                g \<leftarrow> get t p Parent;
                insertFixup t g }
              else do {
                p \<leftarrow> get t node Parent;
                g \<leftarrow> get t p Parent;
                gr \<leftarrow> get t g Right;
                (t, node) \<leftarrow> (if node = gr
                              then do { p \<leftarrow> get t node Parent;
                                        t \<leftarrow> rotateLeft t p;
                                        Some (t, p) }
                              else Some (t, node));
                p \<leftarrow> get t node Parent;
                t \<leftarrow> put t p (\<lambda>n. n\<lparr>Color := black\<rparr>);
                p \<leftarrow> get t node Parent;
                g \<leftarrow> get t p Parent;
                t \<leftarrow> put t g (\<lambda>n. n\<lparr>Color := red\<rparr>);
                p \<leftarrow> get t node Parent;
                g \<leftarrow> get t p Parent;
                t \<leftarrow> rotateRight t g;
                insertFixup t node } }
            else do {
              uncle \<leftarrow> get t g Left;
              cu \<leftarrow> colorOf t uncle;
              if cu = red
              then do {
                p \<leftarrow> get t node Parent;
                t \<leftarrow> put t p (\<lambda>n. n\<lparr>Color := black\<rparr>);
                t \<leftarrow> put t uncle (\<lambda>n. n\<lparr>Color := black\<rparr>);
                p \<leftarrow> get t node Parent;
                g \<leftarrow> get t p Parent;
                t \<leftarrow> put t g (\<lambda>n. n\<lparr>Color := red\<rparr>);
                p \<leftarrow> get t node Parent;
                g \<leftarrow> get t p Parent;
                insertFixup t g }
              else do {
                p \<leftarrow> get t node Parent;
                pl \<leftarrow> get t p Left;
                (t, node) \<leftarrow> (if node = pl
                              then do { p \<leftarrow> get t node Parent;
                                        t \<leftarrow> rotateRight t p;
                                        Some (t, p) }
                              else Some (t, node));
                p \<leftarrow> get t node Parent;
                t \<leftarrow> put t p (\<lambda>n. n\<lparr>Color := black\<rparr>);
                p \<leftarrow> get t node Parent;
                g \<leftarrow> get t p Parent;
                t \<leftarrow> put t g (\<lambda>n. n\<lparr>Color := red\<rparr>);
                p \<leftarrow> get t node Parent;
                g \<leftarrow> get t p Parent;
                t \<leftarrow> rotateLeft t g;
                insertFixup t node } } }
          else put t (root t) (\<lambda>n. n\<lparr>Color := black\<rparr>) }"

text \<open>
  The descent of \<^verbatim>\<open>Insert\<close>: the loop either returns from inside (the key is found at
  \<open>cur\<close>, first component \<open>True\<close>) or ends with \<open>cur\<close> nil and the last node visited
  in \<open>parent\<close>.
\<close>

partial_function (option) insert_loop ::
    "'v Tree \<Rightarrow> string \<Rightarrow> ref \<Rightarrow> ref \<Rightarrow> (bool \<times> ref) option" where
  "insert_loop t key parent cur =
     (if cur \<noteq> None
      then do { k \<leftarrow> get t cur Key;
                if key < k then do { l \<leftarrow> get t cur Left; insert_loop t key cur l }
                else if key > k then do { r \<leftarrow> get t cur Right; insert_loop t key cur r }
                else Some (True, cur) }
      else Some (False, parent))"

definition Insert :: "'v Tree \<Rightarrow> string \<Rightarrow> 'v \<Rightarrow> 'v Tree option" where
  "Insert t key val =
     do { (found, p) \<leftarrow> insert_loop t key None (root t);
          if found then put t p (\<lambda>n. n\<lparr>Value := val\<rparr>)
          else do {
            let node = Some (fresh t);
            let t = t\<lparr>heap := (heap t)(fresh t := Some \<lparr>Key = key, Value = val, Color = red,
                                                         Parent = p, Left = None, Right = None\<rparr>),
                      fresh := fresh t + 1\<rparr>;
            t \<leftarrow> (if p = None then Some (t\<lparr>root := node\<rparr>)
                  else do { nk \<leftarrow> get t node Key;
                            pk \<leftarrow> get t p Key;
                            if nk < pk then put t p (\<lambda>n. n\<lparr>Left := node\<rparr>)
                            else put t p (\<lambda>n. n\<lparr>Right := node\<rparr>) });
            t \<leftarrow> insertFixup t node;
            Some (t\<lparr>size_of := size_of t + 1\<rparr>) } }"

section \<open>Delete\<close>

partial_function (option) deleteFixup :: "'v Tree \<Rightarrow> ref \<Rightarrow> ref \<Rightarrow> 'v Tree option" where
  "deleteFixup t x parent =
     do { continue \<leftarrow> (if x \<noteq> root t then do { c \<leftarrow> colorOf t x; Some (c = black) }
                        else Some False);
          if continue
          then do {
            pl \<leftarrow> leftOf t parent;
            if x = pl
            then do {
              sibling \<leftarrow> rightOf t parent;
              cs \<leftarrow> colorOf t sibling;
              (t, sibling) \<leftarrow> (if cs = red
                                 then do { t \<leftarrow> put t sibling (\<lambda>n. n\<lparr>Color := black\<rparr>);
                                           t \<leftarrow> put t parent (\<lambda>n. n\<lparr>Color := red\<rparr>);
                                           t \<leftarrow> rotateLeft t parent;
                                           sibling \<leftarrow> rightOf t parent;
                                           Some (t, sibling) }
                                 else Some (t, sibling));
              sl \<leftarrow> get t sibling Left;
              csl \<leftarrow> colorOf t sl;
              both \<leftarrow> (if csl = black
                        then do { sr \<leftarrow> get t sibling Right; csr \<leftarrow> colorOf t sr;
                                  Some (csr = black) }
                        else Some False);
              if both
              then do {
                t \<leftarrow> put t sibling (\<lambda>n. n\<lparr>Color := red\<rparr>);
                xp \<leftarrow> get t parent Parent;
                deleteFixup t parent xp }
              else do {
                sr \<leftarrow> get t sibling Right;
                csr \<leftarrow> colorOf t sr;
                (t, sibling) \<leftarrow> (if csr = black
                                   then do { sl \<leftarrow> get t sibling Left;
                                             t \<leftarrow> (if sl \<noteq> None
                                                   then put t sl (\<lambda>n. n\<lparr>Color := black\<rparr>)
                                                   else Some t);
                                             t \<leftarrow> put t sibling (\<lambda>n. n\<lparr>Color := red\<rparr>);
                                             t \<leftarrow> rotateRight t sibling;
                                             sibling \<leftarrow> rightOf t parent;
                                             Some (t, sibling) }
                                   else Some (t, sibling));
                cp \<leftarrow> colorOf t parent;
                t \<leftarrow> put t sibling (\<lambda>n. n\<lparr>Color := cp\<rparr>);
                t \<leftarrow> put t parent (\<lambda>n. n\<lparr>Color := black\<rparr>);
                sr \<leftarrow> get t sibling Right;
                t \<leftarrow> (if sr \<noteq> None then put t sr (\<lambda>n. n\<lparr>Color := black\<rparr>) else Some t);
                t \<leftarrow> rotateLeft t parent;
                deleteFixup t (root t) None } }
            else do {
              sibling \<leftarrow> leftOf t parent;
              cs \<leftarrow> colorOf t sibling;
              (t, sibling) \<leftarrow> (if cs = red
                                 then do { t \<leftarrow> put t sibling (\<lambda>n. n\<lparr>Color := black\<rparr>);
                                           t \<leftarrow> put t parent (\<lambda>n. n\<lparr>Color := red\<rparr>);
                                           t \<leftarrow> rotateRight t parent;
                                           sibling \<leftarrow> leftOf t parent;
                                           Some (t, sibling) }
                                 else Some (t, sibling));
              sl \<leftarrow> get t sibling Left;
              csl \<leftarrow> colorOf t sl;
              both \<leftarrow> (if csl = black
                        then do { sr \<leftarrow> get t sibling Right; csr \<leftarrow> colorOf t sr;
                                  Some (csr = black) }
                        else Some False);
              if both
              then do {
                t \<leftarrow> put t sibling (\<lambda>n. n\<lparr>Color := red\<rparr>);
                xp \<leftarrow> get t parent Parent;
                deleteFixup t parent xp }
              else do {
                sl \<leftarrow> get t sibling Left;
                csl \<leftarrow> colorOf t sl;
                (t, sibling) \<leftarrow> (if csl = black
                                   then do { sr \<leftarrow> get t sibling Right;
                                             t \<leftarrow> (if sr \<noteq> None
                                                   then put t sr (\<lambda>n. n\<lparr>Color := black\<rparr>)
                                                   else Some t);
                                             t \<leftarrow> put t sibling (\<lambda>n. n\<lparr>Color := red\<rparr>);
                                             t \<leftarrow> rotateLeft t sibling;
                                             sibling \<leftarrow> leftOf t parent;
                                             Some (t, sibling) }
                                   else Some (t, sibling));
                cp \<leftarrow> colorOf t parent;
                t \<leftarrow> put t sibling (\<lambda>n. n\<lparr>Color := cp\<rparr>);
                t \<leftarrow> put t parent (\<lambda>n. n\<lparr>Color := black\<rparr>);
                sl \<leftarrow> get t sibling Left;
                t \<leftarrow> (if sl \<noteq> None then put t sl (\<lambda>n. n\<lparr>Color := black\<rparr>) else Some t);
                t \<leftarrow> rotateRight t parent;
                deleteFixup t (root t) None } } }
          else (if x \<noteq> None then put t x (\<lambda>n. n\<lparr>Color := black\<rparr>) else Some t) }"

text \<open>
  The structural part of \<^verbatim>\<open>Delete\<close> (the \<^verbatim>\<open>switch\<close> statement): it unlinks
  \<open>node\<close> and returns the recorded \<^verbatim>\<open>originalColor\<close>, \<^verbatim>\<open>x\<close> and
  \<^verbatim>\<open>replacementParent\<close> with the new store.
\<close>

definition delete_switch :: "'v Tree \<Rightarrow> ref \<Rightarrow> (Color \<times> ref \<times> ref \<times> 'v Tree) option" where
  "delete_switch t node =
     do { originalColor \<leftarrow> get t node Color;
          nl \<leftarrow> get t node Left;
          if nl = None
          then do {
            x \<leftarrow> get t node Right;
            replacementParent \<leftarrow> get t node Parent;
            nr \<leftarrow> get t node Right;
            t \<leftarrow> transplant t node nr;
            Some (originalColor, x, replacementParent, t) }
          else do {
            nr \<leftarrow> get t node Right;
            if nr = None
            then do {
              x \<leftarrow> get t node Left;
              replacementParent \<leftarrow> get t node Parent;
              nl \<leftarrow> get t node Left;
              t \<leftarrow> transplant t node nl;
              Some (originalColor, x, replacementParent, t) }
            else do {
              nr \<leftarrow> get t node Right;
              successor \<leftarrow> minimum t nr;
              originalColor \<leftarrow> get t successor Color;
              x \<leftarrow> get t successor Right;
              sp \<leftarrow> get t successor Parent;
              (replacementParent, t) \<leftarrow>
                 (if sp = node
                  then do { t \<leftarrow> (if x \<noteq> None then put t x (\<lambda>n. n\<lparr>Parent := successor\<rparr>)
                                  else Some t);
                            Some (successor, t) }
                  else do { replacementParent \<leftarrow> get t successor Parent;
                            sr \<leftarrow> get t successor Right;
                            t \<leftarrow> transplant t successor sr;
                            nr \<leftarrow> get t node Right;
                            t \<leftarrow> put t successor (\<lambda>n. n\<lparr>Right := nr\<rparr>);
                            sr \<leftarrow> get t successor Right;
                            t \<leftarrow> put t sr (\<lambda>n. n\<lparr>Parent := successor\<rparr>);
                            Some (replacementParent, t) });
              t \<leftarrow> transplant t node successor;
              nl \<leftarrow> get t node Left;
              t \<leftarrow> put t successor (\<lambda>n. n\<lparr>Left := nl\<rparr>);
              sl \<leftarrow> get t successor Left;
              t \<leftarrow> put t sl (\<lambda>n. n\<lparr>Parent := successor\<rparr>);
              nc \<leftarrow> get t node Color;
              t \<leftarrow> put t successor (\<lambda>n. n\<lparr>Color := nc\<rparr>);
              Some (originalColor, x, replacementParent, t) } } }"

text \<open>The unfolding equations of the loops, for evaluation on concrete stores.\<close>

declare minimum.simps [code]
declare inOrder.simps [code]
declare search_loop.simps [code]
declare insert_loop.simps [code]
declare insertFixup.simps [code]
declare deleteFixup.simps [code]

definition Delete :: "'v Tree \<Rightarrow> string \<Rightarrow> (bool \<times> 'v Tree) option" where
  "Delete t key =
     do { node \<leftarrow> Search t key;
          if node = None then Some (False, t)
          else do {
            (originalColor, x, replacementParent, t) \<leftarrow> delete_switch t node;
            t \<leftarrow> (if originalColor = black then deleteFixup t x replacementParent else Some t);
            Some (True, t\<lparr>size_of := size_of t - 1\<rparr>) } }"

section \<open>The abstract tree behind a store\<close>

text \<open>
  The shape that the pointers of a store describe: a binary tree whose nodes carry their
  address, colour, key and value. \<open>rep h p T\<close> says that the heap \<open>h\<close> holds the tree
  \<open>T\<close> below a node (or the tree header) \<open>p\<close>: every node record has the fields that
  \<open>T\<close> prescribes, its \<^verbatim>\<open>Parent\<close> link included.
\<close>

datatype 'v tr = E | N "'v tr" nat Color string 'v "'v tr"

fun ptr :: "'v tr \<Rightarrow> ref" where
  "ptr E = None"
| "ptr (N l a c k v r) = Some a"

fun col :: "'v tr \<Rightarrow> Color" where
  "col E = black"
| "col (N l a c k v r) = c"

fun addrs :: "'v tr \<Rightarrow> nat list" where
  "addrs E = []"
| "addrs (N l a c k v r) = addrs l @ a # addrs r"

fun entries :: "'v tr \<Rightarrow> (string \<times> 'v) list" where
  "entries E = []"
| "entries (N l a c k v r) = entries l @ (k, v) # entries r"

definition keys :: "'v tr \<Rightarrow> string list" where
  "keys T = map fst (entries T)"

fun rep :: "(nat \<Rightarrow> 'v Node option) \<Rightarrow> ref \<Rightarrow> 'v tr \<Rightarrow> bool" where
  "rep h p E = True"
| "rep h p (N l a c k v r) =
     (h a = Some \<lparr>Key = k, Value = v, Color = c, Parent = p, Left = ptr l, Right = ptr r\<rparr>
      \<and> rep h (Some a) l \<and> rep h (Some a) r)"

definition models :: "'v Tree \<Rightarrow> 'v tr \<Rightarrow> bool" where
  "models t T \<longleftrightarrow>
     root t = ptr T \<and> rep (heap t) None T \<and> distinct (addrs T) \<and> list_all (\<lambda>a. a < fresh t) (addrs T)"

subsection \<open>Contexts\<close>

text \<open>
  A context is a tree with a hole, given as the path from the hole up to the root:
  \<open>InL c a col k v r\<close> says that the hole is the left child of the node \<open>a\<close>, whose right
  subtree is \<open>r\<close> and whose own place is the hole of \<open>c\<close>.
\<close>

datatype 'v ctx = Top
  | InL "'v ctx" nat Color string 'v "'v tr"
  | InR "'v tr" nat Color string 'v "'v ctx"

fun plug :: "'v ctx \<Rightarrow> 'v tr \<Rightarrow> 'v tr" where
  "plug Top T = T"
| "plug (InL c a cl k v r) T = plug c (N T a cl k v r)"
| "plug (InR l a cl k v c) T = plug c (N l a cl k v T)"

fun cptr :: "'v ctx \<Rightarrow> ref" where
  "cptr Top = None"
| "cptr (InL c a cl k v r) = Some a"
| "cptr (InR l a cl k v c) = Some a"

fun ccol :: "'v ctx \<Rightarrow> Color" where
  "ccol Top = black"
| "ccol (InL c a cl k v r) = cl"
| "ccol (InR l a cl k v c) = cl"

fun croot :: "'v ctx \<Rightarrow> ref \<Rightarrow> ref" where
  "croot Top x = x"
| "croot (InL c a cl k v r) x = croot c (Some a)"
| "croot (InR l a cl k v c) x = croot c (Some a)"

fun caddrs :: "'v ctx \<Rightarrow> nat list" where
  "caddrs Top = []"
| "caddrs (InL c a cl k v r) = a # addrs r @ caddrs c"
| "caddrs (InR l a cl k v c) = a # addrs l @ caddrs c"

fun crep :: "(nat \<Rightarrow> 'v Node option) \<Rightarrow> 'v ctx \<Rightarrow> ref \<Rightarrow> bool" where
  "crep h Top x = True"
| "crep h (InL c a cl k v r) x =
     (h a = Some \<lparr>Key = k, Value = v, Color = cl, Parent = cptr c, Left = x, Right = ptr r\<rparr>
      \<and> rep h (Some a) r \<and> crep h c (Some a))"
| "crep h (InR l a cl k v c) x =
     (h a = Some \<lparr>Key = k, Value = v, Color = cl, Parent = cptr c, Left = ptr l, Right = x\<rparr>
      \<and> rep h (Some a) l \<and> crep h c (Some a))"

text \<open>Entries to the left and to the right of the hole.\<close>

fun cleft :: "'v ctx \<Rightarrow> (string \<times> 'v) list" where
  "cleft Top = []"
| "cleft (InL c a cl k v r) = cleft c"
| "cleft (InR l a cl k v c) = cleft c @ entries l @ [(k, v)]"

fun cright :: "'v ctx \<Rightarrow> (string \<times> 'v) list" where
  "cright Top = []"
| "cright (InL c a cl k v r) = (k, v) # entries r @ cright c"
| "cright (InR l a cl k v c) = cright c"

section \<open>The red-black invariants\<close>

text \<open>
  \<open>bh\<close> counts the black nodes on the leftmost path below a position; \<open>bh_ok\<close> asks
  that at every node both subtrees have the same count, so that every path from a node down
  to a missing child passes the same number of black nodes. \<open>no_red_red\<close> asks that a red
  node has no red child. A missing child counts as black.
\<close>

fun bh :: "'v tr \<Rightarrow> nat" where
  "bh E = 0"
| "bh (N l a c k v r) = (if c = black then Suc (bh l) else bh l)"

fun bh_ok :: "'v tr \<Rightarrow> bool" where
  "bh_ok E = True"
| "bh_ok (N l a c k v r) = (bh l = bh r \<and> bh_ok l \<and> bh_ok r)"

fun no_red_red :: "'v tr \<Rightarrow> bool" where
  "no_red_red E = True"
| "no_red_red (N l a c k v r) =
     ((c = red \<longrightarrow> col l = black \<and> col r = black) \<and> no_red_red l \<and> no_red_red r)"

definition rb_tree :: "'v tr \<Rightarrow> bool" where
  "rb_tree T \<longleftrightarrow> col T = black \<and> no_red_red T \<and> bh_ok T"

definition bst :: "'v tr \<Rightarrow> bool" where
  "bst T \<longleftrightarrow> sorted_wrt (<) (keys T)"

text \<open>
  The same invariants for a context around a hole of black height \<open>h\<close>: every sibling
  subtree on the way up is well formed and has the black height of the path through the
  hole, a red node on the way has a black sibling subtree and a black parent, and the
  topmost node is black.
\<close>

fun cinv :: "'v ctx \<Rightarrow> nat \<Rightarrow> bool" where
  "cinv Top h = True"
| "cinv (InL c a cl k v r) h =
     (bh r = h \<and> bh_ok r \<and> no_red_red r
      \<and> (cl = red \<longrightarrow> col r = black \<and> ccol c = black \<and> c \<noteq> Top)
      \<and> cinv c (if cl = black then Suc h else h))"
| "cinv (InR l a cl k v c) h =
     (bh l = h \<and> bh_ok l \<and> no_red_red l
      \<and> (cl = red \<longrightarrow> col l = black \<and> ccol c = black \<and> c \<noteq> Top)
      \<and> cinv c (if cl = black then Suc h else h))"

section \<open>The search path\<close>

text \<open>
  The path that a lookup of \<open>key\<close> takes through the abstract tree, as the context of the
  place where it stops and the subtree found there: a node with this key, or \<open>E\<close> where
  the key would be attached.
\<close>

fun descend :: "string \<Rightarrow> 'v ctx \<Rightarrow> 'v tr \<Rightarrow> 'v ctx \<times> 'v tr" where
  "descend key c E = (c, E)"
| "descend key c (N l a cl k v r) =
     (if key < k then descend key (InL c a cl k v r) l
      else if k < key then descend key (InR l a cl k v c) r
      else (c, N l a cl k v r))"

text \<open>A key fits the hole of a context when it lies between the entries on both sides.\<close>

definition fits :: "string \<Rightarrow> 'v ctx \<Rightarrow> bool" where
  "fits key c \<longleftrightarrow>
     list_all (\<lambda>(k, v). k < key) (cleft c) \<and> list_all (\<lambda>(k, v). key < k) (cright c)"

section \<open>Sorted association lists\<close>

text \<open>
  What \<^verbatim>\<open>Insert\<close> and \<^verbatim>\<open>Delete\<close> do to the in-order list of entries: \<open>upsert\<close> puts
  an entry at its place in a list sorted by key, or overwrites the value of the entry with
  that key; \<open>remove\<close> drops the entry with the key.
\<close>

fun upsert :: "string \<Rightarrow> 'v \<Rightarrow> (string \<times> 'v) list \<Rightarrow> (string \<times> 'v) list" where
  "upsert key val [] = [(key, val)]"
| "upsert key val ((k, v) # es) =
     (if key < k then (key, val) # (k, v) # es
      else if k < key then (k, v) # upsert key val es
      else (key, val) # es)"

fun remove :: "string \<Rightarrow> (string \<times> 'v) list \<Rightarrow> (string \<times> 'v) list" where
  "remove key [] = []"
| "remove key ((k, v) # es) = (if k = key then remove key es else (k, v) # remove key es)"

section \<open>Auxiliary: the attachment step of Insert\<close>

text \<open>
  The statements of \<^verbatim>\<open>Insert\<close> between the descent and the fixup (allocation of the red
  node and its link to \<open>p\<close>), as a function of their own; the proofs show that \<open>Insert\<close>
  is the composition of the descent, this step and the fixup.
\<close>

definition attach_node :: "'v Tree \<Rightarrow> string \<Rightarrow> 'v \<Rightarrow> ref \<Rightarrow> 'v Tree option" where
  "attach_node t key val p =
     (let node = Some (fresh t);
          t = t\<lparr>heap := (heap t)(fresh t := Some \<lparr>Key = key, Value = val, Color = red,
                                                       Parent = p, Left = None, Right = None\<rparr>),
                    fresh := fresh t + 1\<rparr>
      in if p = None then Some (t\<lparr>root := node\<rparr>)
         else do { nk \<leftarrow> get t node Key;
                   pk \<leftarrow> get t p Key;
                   if nk < pk then put t p (\<lambda>n. n\<lparr>Left := node\<rparr>)
                   else put t p (\<lambda>n. n\<lparr>Right := node\<rparr>) })"

section \<open>Auxiliary: the successor and the steps of a two-child Delete\<close>

text \<open>
  Composition of contexts: the hole of \<open>c\<close> filled with the context \<open>cs\<close>.
\<close>

fun cplug :: "'v ctx \<Rightarrow> 'v ctx \<Rightarrow> 'v ctx" where
  "cplug c Top = c"
| "cplug c (InL cs a cl k v r) = InL (cplug c cs) a cl k v r"
| "cplug c (InR l a cl k v cs) = InR l a cl k v (cplug c cs)"

text \<open>The path to the leftmost node of a tree, which \<^verbatim>\<open>minimum\<close> walks.\<close>

fun leftmost :: "'v ctx \<Rightarrow> 'v tr \<Rightarrow> 'v ctx \<times> 'v tr" where
  "leftmost c E = (c, E)"
| "leftmost c (N l a cl k v r) =
     (if l = E then (c, N l a cl k v r) else leftmost (InL c a cl k v r) l)"

text \<open>
  Two groups of statements of the two-child case of \<^verbatim>\<open>Delete\<close>, as functions of their
  own: the successor adopts the right subtree of the node
  (\<^verbatim>\<open>successor.Right = node.Right; successor.Right.Parent = successor\<close>), and the successor
  takes the node's place
  (\<^verbatim>\<open>transplant(node, successor)\<close> up to \<^verbatim>\<open>successor.Color = node.Color\<close>).
\<close>

definition adopt_right :: "'v Tree \<Rightarrow> ref \<Rightarrow> ref \<Rightarrow> 'v Tree option" where
  "adopt_right t node successor =
     do { nr \<leftarrow> get t node Right;
          t \<leftarrow> put t successor (\<lambda>n. n\<lparr>Right := nr\<rparr>);
          sr \<leftarrow> get t successor Right;
          put t sr (\<lambda>n. n\<lparr>Parent := successor\<rparr>) }"

definition take_over :: "'v Tree \<Rightarrow> ref \<Rightarrow> ref \<Rightarrow> 'v Tree option" where
  "take_over t node successor =
     do { t \<leftarrow> transplant t node successor;
          nl \<leftarrow> get t node Left;
          t \<leftarrow> put t successor (\<lambda>n. n\<lparr>Left := nl\<rparr>);
          sl \<leftarrow> get t successor Left;
          t \<leftarrow> put t sl (\<lambda>n. n\<lparr>Parent := successor\<rparr>);
          nc \<leftarrow> get t node Color;
          put t successor (\<lambda>n. n\<lparr>Color := nc\<rparr>) }"

text \<open>
  The store in the middle of a two-child \<^verbatim>\<open>Delete\<close>, before the successor \<open>s\<close> takes
  the place of the node \<open>a\<close>: the context and the left subtree still hang on \<open>a\<close>, and the
  right subtree \<open>R\<close> already hangs on \<open>s\<close>.
\<close>

definition half_moved ::
    "'v Tree \<Rightarrow> 'v ctx \<Rightarrow> 'v tr \<Rightarrow> nat \<Rightarrow> Color \<Rightarrow> nat \<Rightarrow> string \<Rightarrow> 'v \<Rightarrow> 'v tr \<Rightarrow> bool" where
  "half_moved t c l a cl s sk sv R \<longleftrightarrow>
     root t = croot c (Some a) \<and> crep (heap t) c (Some a)
     \<and> (\<exists>k v ar. heap t a = Some \<lparr>Key = k, Value = v, Color = cl, Parent = cptr c,
                                    Left = ptr l, Right = ar\<rparr>)
     \<and> rep (heap t) (Some a) l
     \<and> (\<exists>sc sp sl. heap t s = Some \<lparr>Key = sk, Value = sv, Color = sc, Parent = sp,
                                     Left = sl, Right = ptr R\<rparr>)
     \<and> rep (heap t) (Some s) R
     \<and> distinct (a # s # caddrs c @ addrs l @ addrs R)
     \<and> list_all (\<lambda>x. x < fresh t) (a # s # caddrs c @ addrs l @ addrs R)"

section \<open>Auxiliary: the two halves of the delete fixup\<close>

text \<open>
  The part of the loop body of \<^verbatim>\<open>deleteFixup\<close> that follows the treatment of a red
  sibling, for \<open>x\<close> a left child and for \<open>x\<close> a right child, as functions of their
  own; the text is that of \<open>deleteFixup\<close>.
\<close>

definition dfix_left :: "'v Tree \<Rightarrow> ref \<Rightarrow> ref \<Rightarrow> 'v Tree option" where
  "dfix_left t parent sibling =
     do {
      sl \<leftarrow> get t sibling Left;
      csl \<leftarrow> colorOf t sl;
      both \<leftarrow> (if csl = black
                then do { sr \<leftarrow> get t sibling Right; csr \<leftarrow> colorOf t sr;
                          Some (csr = black) }
                else Some False);
      if both
      then do {
        t \<leftarrow> put t sibling (\<lambda>n. n\<lparr>Color := red\<rparr>);
        xp \<leftarrow> get t parent Parent;
        deleteFixup t parent xp }
      else do {
        sr \<leftarrow> get t sibling Right;
        csr \<leftarrow> colorOf t sr;
        (t, sibling) \<leftarrow> (if csr = black
                           then do { sl \<leftarrow> get t sibling Left;
                                     t \<leftarrow> (if sl \<noteq> None
                                           then put t sl (\<lambda>n. n\<lparr>Color := black\<rparr>)
                                           else Some t);
                                     t \<leftarrow> put t sibling (\<lambda>n. n\<lparr>Color := red\<rparr>);
                                     t \<leftarrow> rotateRight t sibling;
                                     sibling \<leftarrow> rightOf t parent;
                                     Some (t, sibling) }
                           else Some (t, sibling));
        cp \<leftarrow> colorOf t parent;
        t \<leftarrow> put t sibling (\<lambda>n. n\<lparr>Color := cp\<rparr>);
        t \<leftarrow> put t parent (\<lambda>n. n\<lparr>Color := black\<rparr>);
        sr \<leftarrow> get t sibling Right;
        t \<leftarrow> (if sr \<noteq> None then put t sr (\<lambda>n. n\<lparr>Color := black\<rparr>) else Some t);
        t \<leftarrow> rotateLeft t parent;
        deleteFixup t (root t) None } }"

definition dfix_right :: "'v Tree \<Rightarrow> ref \<Rightarrow> ref \<Rightarrow> 'v Tree option" where
  "dfix_right t parent sibling =
     do {
      sl \<leftarrow> get t sibling Left;
      csl \<leftarrow> colorOf t sl;
      both \<leftarrow> (if csl = black
                then do { sr \<leftarrow> get t sibling Right; csr \<leftarrow> colorOf t sr;
                          Some (csr = black) }
                else Some False);
      if both
      then do {
        t \<leftarrow> put t sibling (\<lambda>n. n\<lparr>Color := red\<rparr>);
        xp \<leftarrow> get t parent Parent;
        deleteFixup t parent xp }
      else do {
        sl \<leftarrow> get t sibling Left;
        csl \<leftarrow> colorOf t sl;
        (t, sibling) \<leftarrow> (if csl = black
                           then do { sr \<leftarrow> get t sibling Right;
                                     t \<leftarrow> (if sr \<noteq> None
                                           then put t sr (\<lambda>n. n\<lparr>Color := black\<rparr>)
                                           else Some t);
                                     t \<leftarrow> put t sibling (\<lambda>n. n\<lparr>Color := red\<rparr>);
                                     t \<leftarrow> rotateLeft t sibling;
                                     sibling \<leftarrow> leftOf t parent;
                                     Some (t, sibling) }
                           else Some (t, sibling));
        cp \<leftarrow> colorOf t parent;
        t \<leftarrow> put t sibling (\<lambda>n. n\<lparr>Color := cp\<rparr>);
        t \<leftarrow> put t parent (\<lambda>n. n\<lparr>Color := black\<rparr>);
        sl \<leftarrow> get t sibling Left;
        t \<leftarrow> (if sl \<noteq> None then put t sl (\<lambda>n. n\<lparr>Color := black\<rparr>) else Some t);
        t \<leftarrow> rotateRight t parent;
        deleteFixup t (root t) None } }"

text \<open>The tree with its root painted black, as the last statement of both fixups leaves it.\<close>

fun blacken :: "'v tr \<Rightarrow> 'v tr" where
  "blacken E = E"
| "blacken (N l a c k v r) = N l a black k v r"

section \<open>Well-formed stores\<close>

text \<open>
  \<open>valid t T\<close>: the store \<open>t\<close> holds the tree \<open>T\<close>, which is a red-black tree with
  strictly increasing keys, and the element count of \<open>t\<close> is the number of its nodes.
\<close>

definition valid :: "'v Tree \<Rightarrow> 'v tr \<Rightarrow> bool" where
  "valid t T \<longleftrightarrow> models t T \<and> rb_tree T \<and> bst T \<and> size_of t = int (length (entries T))"

section \<open>Sequences of operations\<close>

text \<open>
  A caller's history: a list of calls of \<^verbatim>\<open>Insert\<close> and \<^verbatim>\<open>Delete\<close>. \<open>run t ops\<close>
  makes the calls one after the other on the store \<open>t\<close> and returns the values that the
  calls of \<^verbatim>\<open>Delete\<close> returned, in order, with the last store; it is \<open>None\<close> when a call
  panics or does not return.
\<close>

datatype 'v op = Ins string 'v | Del string

fun run :: "'v Tree \<Rightarrow> 'v op list \<Rightarrow> (bool list \<times> 'v Tree) option" where
  "run t [] = Some ([], t)"
| "run t (Ins k v # ops) = do { t \<leftarrow> Insert t k v; run t ops }"
| "run t (Del k # ops) =
     do { (b, t) \<leftarrow> Delete t k; (bs, t) \<leftarrow> run t ops; Some (b # bs, t) }"

text \<open>
  What a history should leave, on sorted association lists: the entries held after the
  calls, the values that the calls of \<^verbatim>\<open>Delete\<close> should return (whether the key was held
  at the time of the call), and the number of calls of \<^verbatim>\<open>Insert\<close> with a key that was
  not held at the time of the call.
\<close>

fun step :: "(string \<times> 'v) list \<Rightarrow> 'v op \<Rightarrow> (string \<times> 'v) list" where
  "step es (Ins k v) = upsert k v es"
| "step es (Del k) = remove k es"

definition contents :: "'v op list \<Rightarrow> (string \<times> 'v) list" where
  "contents ops = foldl step [] ops"

fun expected :: "(string \<times> 'v) list \<Rightarrow> 'v op list \<Rightarrow> bool list" where
  "expected es [] = []"
| "expected es (Ins k v # ops) = expected (upsert k v es) ops"
| "expected es (Del k # ops) = (k \<in> fst ` set es) # expected (remove k es) ops"

fun new_inserts :: "(string \<times> 'v) list \<Rightarrow> 'v op list \<Rightarrow> nat" where
  "new_inserts es [] = 0"
| "new_inserts es (Ins k v # ops) =
     (if k \<in> fst ` set es then 0 else 1) + new_inserts (upsert k v es) ops"
| "new_inserts es (Del k # ops) = new_inserts (remove k es) ops"

text \<open>
  The count of the size-consistency property as the specification words it: the number of
  distinct keys ever inserted, minus the number of calls of \<^verbatim>\<open>Delete\<close> that returned
  \<open>True\<close>.
\<close>

fun inserted_keys :: "'v op list \<Rightarrow> string list" where
  "inserted_keys [] = []"
| "inserted_keys (Ins k v # ops) = k # inserted_keys ops"
| "inserted_keys (Del k # ops) = inserted_keys ops"

definition spec_size :: "'v op list \<Rightarrow> bool list \<Rightarrow> int" where
  "spec_size ops bs = int (length (remdups (inserted_keys ops))) - int (length (filter (\<lambda>b. b) bs))"

section \<open>Black counts along paths\<close>

text \<open>
  \<open>path_blacks T\<close> lists, for every path from the root of \<open>T\<close> down to a missing child,
  the number of black nodes on it; \<open>subtrees T\<close> lists the subtrees below every node of
  \<open>T\<close>. \<open>uniform_blacks T\<close> says that from every node all the paths down to a missing
  child have the same number of black nodes.
\<close>

fun path_blacks :: "'v tr \<Rightarrow> nat list" where
  "path_blacks E = [0]"
| "path_blacks (N l a c k v r) =
     map (\<lambda>n. if c = black then Suc n else n) (path_blacks l @ path_blacks r)"

fun subtrees :: "'v tr \<Rightarrow> 'v tr list" where
  "subtrees E = []"
| "subtrees (N l a c k v r) = N l a c k v r # subtrees l @ subtrees r"

definition uniform_blacks :: "'v tr \<Rightarrow> bool" where
  "uniform_blacks T \<longleftrightarrow>
     list_all (\<lambda>S. list_all (\<lambda>m. m = hd (path_blacks S)) (path_blacks S)) (subtrees T)"

section \<open>Reachable nodes and parent links\<close>

text \<open>
  The nodes of a store that the root pointer reaches through \<^verbatim>\<open>Left\<close> and \<^verbatim>\<open>Right\<close>
  links, and the consistency of the \<^verbatim>\<open>Parent\<close> links on them: the root has no parent,
  a child names its parent, and a node other than the root is exactly one of the two
  children of its parent.
\<close>

inductive_set reach :: "'v Tree \<Rightarrow> nat set" for t :: "'v Tree" where
  reach_root: "root t = Some a \<Longrightarrow> a \<in> reach t"
| reach_left: "a \<in> reach t \<Longrightarrow> heap t a = Some nd \<Longrightarrow> Left nd = Some b \<Longrightarrow> b \<in> reach t"
| reach_right: "a \<in> reach t \<Longrightarrow> heap t a = Some nd \<Longrightarrow> Right nd = Some b \<Longrightarrow> b \<in> reach t"

definition parent_links :: "'v Tree \<Rightarrow> bool" where
  "parent_links t \<longleftrightarrow>
     (\<forall>a. root t = Some a \<longrightarrow> (\<exists>nd. heap t a = Some nd \<and> Parent nd = None))
     \<and> (\<forall>a \<in> reach t. \<exists>nd. heap t a = Some nd
          \<and> (\<forall>b. Left nd = Some b \<longrightarrow> (\<exists>nb. heap t b = Some nb \<and> Parent nb = Some a))
          \<and> (\<forall>b. Right nd = Some b \<longrightarrow> (\<exists>nb. heap t b = Some nb \<and> Parent nb = Some a)))
     \<and> (\<forall>a \<in> reach t. root t \<noteq> Some a \<longrightarrow>
          (\<exists>nd p np. heap t a = Some nd \<and> Parent nd = Some p \<and> p \<in> reach t
              \<and> heap t p = Some np \<and> ((Left np = Some a) \<noteq> (Right np = Some a))))"

section \<open>Example stores\<close>

text \<open>Two small stores used to instantiate the theorems below at concrete inputs.\<close>

definition ex_right :: "nat Tree" where
  "ex_right = \<lparr>heap = (\<lambda>_. None)
       (0 := Some \<lparr>Key = ''a'', Value = 1, Color = black, Parent = None, Left = None, Right = Some 1\<rparr>,
        1 := Some \<lparr>Key = ''b'', Value = 2, Color = red, Parent = Some 0, Left = None, Right = None\<rparr>),
     fresh = 2, root = Some 0, size_of = 2\<rparr>"

definition ex_left :: "nat Tree" where
  "ex_left = \<lparr>heap = (\<lambda>_. None)
       (0 := Some \<lparr>Key = ''b'', Value = 2, Color = black, Parent = None, Left = Some 1, Right = None\<rparr>,
        1 := Some \<lparr>Key = ''a'', Value = 1, Color = red, Parent = Some 0, Left = None, Right = None\<rparr>),
     fresh = 2, root = Some 0, size_of = 2\<rparr>"

definition ex_three :: "nat Tree" where
  "ex_three = \<lparr>heap = (\<lambda>_. None)
       (0 := Some \<lparr>Key = ''b'', Value = 2, Color = black, Parent = None, Left = Some 1, Right = Some 2\<rparr>,
        1 := Some \<lparr>Key = ''a'', Value = 1, Color = red, Parent = Some 0, Left = None, Right = None\<rparr>,
        2 := Some \<lparr>Key = ''c'', Value = 3, Color = red, Parent = Some 0, Left = None, Right = None\<rparr>),
     fresh = 3, root = Some 0, size_of = 3\<rparr>"


section \<open>Frame and decomposition lemmas\<close>

lemma rep_upd_other: "a \<notin> set (addrs T) \<Longrightarrow> rep (h(a := n)) p T = rep h p T"
  by (induction T arbitrary: p) auto

lemma crep_upd_other: "a \<notin> set (caddrs c) \<Longrightarrow> crep (h(a := n)) c x = crep h c x"
  by (induction c arbitrary: x) (auto simp: rep_upd_other)

lemma ptr_plug: "ptr (plug c T) = croot c (ptr T)"
  by (induction c arbitrary: T) auto

lemma rep_plug: "rep h None (plug c T) = (crep h c (ptr T) \<and> rep h (cptr c) T)"
  by (induction c arbitrary: T) auto

lemma set_addrs_plug: "set (addrs (plug c T)) = set (caddrs c) \<union> set (addrs T)"
  by (induction c arbitrary: T) auto

lemma distinct_addrs_plug:
  "distinct (addrs (plug c T)) =
     (distinct (caddrs c) \<and> distinct (addrs T) \<and> set (caddrs c) \<inter> set (addrs T) = {})"
  by (induction c arbitrary: T) (auto simp: set_addrs_plug)

lemma entries_plug: "entries (plug c T) = cleft c @ entries T @ cright c"
  by (induction c arbitrary: T) auto

lemma models_plug:
  "models t (plug c T) \<longleftrightarrow>
     root t = croot c (ptr T) \<and> crep (heap t) c (ptr T) \<and> rep (heap t) (cptr c) T
     \<and> distinct (caddrs c) \<and> distinct (addrs T) \<and> set (caddrs c) \<inter> set (addrs T) = {}
     \<and> list_all (\<lambda>a. a < fresh t) (caddrs c) \<and> list_all (\<lambda>a. a < fresh t) (addrs T)"
  by (auto simp: models_def ptr_plug rep_plug distinct_addrs_plug set_addrs_plug list_all_iff)

lemma ptr_notin [simp]: "a \<notin> set (addrs T) \<Longrightarrow> ptr T \<noteq> Some a"
  by (cases T) auto

lemma ptr_notin' [simp]: "a \<notin> set (addrs T) \<Longrightarrow> Some a \<noteq> ptr T"
  by (cases T) auto

lemmas heap_ops = get_def put_def load_def rep_upd_other crep_upd_other

lemma inOrder_rep:
  "rep (heap t) p T \<Longrightarrow> inOrder t (ptr T) fn acc = Some (fold (\<lambda>(k, v). fn k v) (entries T) acc)"
proof (induction T arbitrary: p acc)
  case E
  show ?case by (subst inOrder.simps) simp
next
  case (N l a c k v r)
  from N.prems have hl: "rep (heap t) (Some a) l" and hr: "rep (heap t) (Some a) r"
    and ha: "heap t a = Some \<lparr>Key = k, Value = v, Color = c, Parent = p, Left = ptr l, Right = ptr r\<rparr>"
    by auto
  show ?case
    by (subst inOrder.simps) (simp add: get_def load_def ha N.IH(1)[OF hl] N.IH(2)[OF hr])
qed

lemma InOrder_models:
  "models t T \<Longrightarrow> InOrder t fn acc = Some (fold (\<lambda>(k, v). fn k v) (entries T) acc)"
  using inOrder_rep[of t None T fn acc] by (simp add: InOrder_def models_def)

lemma rotateLeft_focus:
  assumes "models t (plug c (N A x cx kx vx (N B y cy ky vy D)))"
  shows "\<exists>t'. rotateLeft t (Some x) = Some t'
            \<and> models t' (plug c (N (N A x cx kx vx B) y cy ky vy D))
            \<and> fresh t' = fresh t \<and> size_of t' = size_of t"
proof (cases c)
  case Top
  with assms show ?thesis
    by (cases B) (simp_all add: models_def rotateLeft_def heap_ops)
next
  case InL
  with assms show ?thesis
    by (cases B) (simp_all add: models_plug rotateLeft_def heap_ops)
next
  case InR
  with assms show ?thesis
    by (cases B) (simp_all add: models_plug rotateLeft_def heap_ops)
qed

lemma rotateRight_focus:
  assumes "models t (plug c (N (N A x cx kx vx B) y cy ky vy D))"
  shows "\<exists>t'. rotateRight t (Some y) = Some t'
            \<and> models t' (plug c (N A x cx kx vx (N B y cy ky vy D)))
            \<and> fresh t' = fresh t \<and> size_of t' = size_of t"
proof (cases c)
  case Top
  with assms show ?thesis
    by (cases B) (simp_all add: models_def rotateRight_def heap_ops)
next
  case InL
  with assms show ?thesis
    by (cases B) (simp_all add: models_plug rotateRight_def heap_ops)
next
  case InR
  with assms show ?thesis
    by (cases B) (simp_all add: models_plug rotateRight_def heap_ops)
qed

section \<open>Rotations\<close>

text \<open>
  Claim C9. A rotation keeps the in-order key sequence of the whole tree: for a node \<open>x\<close>
  anywhere in the tree (below the context \<open>c\<close>) that has a right child \<open>y\<close>,
  \<^verbatim>\<open>rotateLeft\<close> returns a store that again holds a tree, with the same key sequence, and
  an in-order walk with any visitor gives the same result before and after; the same holds
  for \<^verbatim>\<open>rotateRight\<close> at a node \<open>y\<close> with a left child \<open>x\<close>.
\<close>

theorem rotations_keep_inorder:
  "(models t (plug c (N A x cx kx vx (N B y cy ky vy D))) \<longrightarrow>
      (\<exists>t' T'. rotateLeft t (Some x) = Some t' \<and> models t' T'
          \<and> keys T' = keys (plug c (N A x cx kx vx (N B y cy ky vy D)))
          \<and> InOrder t' fn acc = InOrder t fn acc))
   \<and> (models t (plug c (N (N A x cx kx vx B) y cy ky vy D)) \<longrightarrow>
      (\<exists>t' T'. rotateRight t (Some y) = Some t' \<and> models t' T'
          \<and> keys T' = keys (plug c (N (N A x cx kx vx B) y cy ky vy D))
          \<and> InOrder t' fn acc = InOrder t fn acc))"
proof (intro conjI impI)
  assume m: "models t (plug c (N A x cx kx vx (N B y cy ky vy D)))"
  from rotateLeft_focus[OF m] obtain t' where
    r: "rotateLeft t (Some x) = Some t'" and
    m': "models t' (plug c (N (N A x cx kx vx B) y cy ky vy D))" by blast
  have "InOrder t' fn acc = InOrder t fn acc"
    by (simp add: InOrder_models[OF m] InOrder_models[OF m'] entries_plug)
  moreover have "keys (plug c (N (N A x cx kx vx B) y cy ky vy D))
      = keys (plug c (N A x cx kx vx (N B y cy ky vy D)))"
    by (simp add: keys_def entries_plug)
  ultimately show "\<exists>t' T'. rotateLeft t (Some x) = Some t' \<and> models t' T'
          \<and> keys T' = keys (plug c (N A x cx kx vx (N B y cy ky vy D)))
          \<and> InOrder t' fn acc = InOrder t fn acc"
    using r m' by blast
next
  assume m: "models t (plug c (N (N A x cx kx vx B) y cy ky vy D))"
  from rotateRight_focus[OF m] obtain t' where
    r: "rotateRight t (Some y) = Some t'" and
    m': "models t' (plug c (N A x cx kx vx (N B y cy ky vy D)))" by blast
  have "InOrder t' fn acc = InOrder t fn acc"
    by (simp add: InOrder_models[OF m] InOrder_models[OF m'] entries_plug)
  moreover have "keys (plug c (N A x cx kx vx (N B y cy ky vy D)))
      = keys (plug c (N (N A x cx kx vx B) y cy ky vy D))"
    by (simp add: keys_def entries_plug)
  ultimately show "\<exists>t' T'. rotateRight t (Some y) = Some t' \<and> models t' T'
          \<and> keys T' = keys (plug c (N (N A x cx kx vx B) y cy ky vy D))
          \<and> InOrder t' fn acc = InOrder t fn acc"
    using r m' by blast
qed


theorem rotations_keep_inorder_witness:
  "models ex_right (plug Top (N E 0 black ''a'' 1 (N E 1 red ''b'' 2 E)))
   \<and> (\<exists>t' T'. rotateLeft ex_right (Some 0) = Some t' \<and> models t' T'
          \<and> keys T' = [''a'', ''b'']
          \<and> InOrder t' (\<lambda>k v acc. acc @ [k]) [] = Some [''a'', ''b''])
   \<and> models ex_left (plug Top (N (N E 1 red ''a'' 1 E) 0 black ''b'' 2 E))
   \<and> (\<exists>t' T'. rotateRight ex_left (Some 0) = Some t' \<and> models t' T'
          \<and> keys T' = [''a'', ''b'']
          \<and> InOrder t' (\<lambda>k v acc. acc @ [k]) [] = Some [''a'', ''b''])"
proof -
  have mr: "models ex_right (plug Top (N E 0 black ''a'' 1 (N E 1 red ''b'' 2 E)))"
    by (simp add: models_def ex_right_def)
  have ml: "models ex_left (plug Top (N (N E 1 red ''a'' 1 E) 0 black ''b'' 2 E))"
    by (simp add: models_def ex_left_def)
  have ir: "InOrder ex_right (\<lambda>k v acc. acc @ [k]) [] = Some [''a'', ''b'']"
    using InOrder_models[OF mr, of "\<lambda>k v acc. acc @ [k]" "[]"] by simp
  have il: "InOrder ex_left (\<lambda>k v acc. acc @ [k]) [] = Some [''a'', ''b'']"
    using InOrder_models[OF ml, of "\<lambda>k v acc. acc @ [k]" "[]"] by simp
  from rotations_keep_inorder[of ex_right Top E 0 black "''a''" 1 E 1 red "''b''" 2 E
      "\<lambda>k v acc. acc @ [k]" "[]"] mr ir
  have r: "\<exists>t' T'. rotateLeft ex_right (Some 0) = Some t' \<and> models t' T'
          \<and> keys T' = [''a'', ''b'']
          \<and> InOrder t' (\<lambda>k v acc. acc @ [k]) [] = Some [''a'', ''b'']"
    by (simp add: keys_def)
  from rotations_keep_inorder[of ex_left Top E 1 red "''a''" 1 E 0 black "''b''" 2 E
      "\<lambda>k v acc. acc @ [k]" "[]"] ml il
  have l: "\<exists>t' T'. rotateRight ex_left (Some 0) = Some t' \<and> models t' T'
          \<and> keys T' = [''a'', ''b'']
          \<and> InOrder t' (\<lambda>k v acc. acc @ [k]) [] = Some [''a'', ''b'']"
    by (simp add: keys_def)
  from mr r ml l show ?thesis by blast
qed

section \<open>Symbolic execution of the insert fixup\<close>


lemma read_focus:
  "models t (plug c (N l a cl k v r)) \<Longrightarrow>
   heap t a = Some \<lparr>Key = k, Value = v, Color = cl, Parent = cptr c, Left = ptr l, Right = ptr r\<rparr>"
  by (simp add: models_plug)

lemma paint_focus:
  assumes "models t (plug c (N l a cl k v r))"
  shows "\<exists>t'. put t (Some a) (\<lambda>n. n\<lparr>Color := x\<rparr>) = Some t'
            \<and> models t' (plug c (N l a x k v r))
            \<and> fresh t' = fresh t \<and> size_of t' = size_of t \<and> root t' = root t"
  using assms by (simp add: models_plug heap_ops)

lemma colorOf_focus: "models t (plug c U) \<Longrightarrow> colorOf t (ptr U) = Some (col U)"
  by (cases U) (simp_all add: colorOf_def get_def load_def models_plug)

lemma croot_cases: "croot c (Some b) = Some a \<Longrightarrow> a = b \<or> a \<in> set (caddrs c)"
  by (induction c arbitrary: b) auto

lemma root_neq:
  assumes "models t (plug c (N l b bc bk bv r))" and "a \<in> set (addrs l) \<union> set (addrs r)"
  shows "root t \<noteq> Some a"
proof
  assume "root t = Some a"
  with assms(1) have "croot c (Some b) = Some a" by (simp add: models_plug)
  from croot_cases[OF this] assms show False by (auto simp: models_plug)
qed

lemma root_Top: "models t (plug Top T) \<Longrightarrow> root t = ptr T"
  by (simp add: models_def)


lemma colorOf_Some: "colorOf t (Some a) = map_option Color (heap t a)"
  by (simp add: colorOf_def get_def load_def)

lemma colorOf_None: "colorOf t None = Some black"
  by (simp add: colorOf_def)

lemmas exec = get_def load_def colorOf_Some colorOf_None

lemmas read_L = read_focus[of _ "InL c b bc bk bv br", unfolded plug.simps cptr.simps] for c b bc bk bv br
lemmas read_R = read_focus[of _ "InR bl b bc bk bv c", unfolded plug.simps cptr.simps] for c b bc bk bv bl
lemmas read_LL = read_L[of _ "InL c b bc bk bv br", unfolded plug.simps cptr.simps] for c b bc bk bv br
lemmas read_LR = read_R[of _ "InL c b bc bk bv br", unfolded plug.simps cptr.simps] for c b bc bk bv br
lemmas read_RL = read_L[of _ "InR bl b bc bk bv c", unfolded plug.simps cptr.simps] for c b bc bk bv bl
lemmas read_RR = read_R[of _ "InR bl b bc bk bv c", unfolded plug.simps cptr.simps] for c b bc bk bv bl

lemmas paint_L = paint_focus[of _ "InL c b bc bk bv br", unfolded plug.simps cptr.simps] for c b bc bk bv br
lemmas paint_R = paint_focus[of _ "InR bl b bc bk bv c", unfolded plug.simps cptr.simps] for c b bc bk bv bl

lemmas colorOf_L = colorOf_focus[of _ "InL c b bc bk bv br", unfolded plug.simps cptr.simps] for c b bc bk bv br
lemmas colorOf_R = colorOf_focus[of _ "InR bl b bc bk bv c", unfolded plug.simps cptr.simps] for c b bc bk bv bl


lemma ifix_LL_black:
  assumes m: "models t (plug c (N (N (N A n cn kn vn B) p red kp vp S) g gc kg vg U))"
    and u: "col U = black"
  shows "\<exists>t'. insertFixup t (Some n) = insertFixup t' (Some n)
            \<and> models t' (plug c (N (N A n cn kn vn B) p black kp vp (N S g red kg vg U)))
            \<and> fresh t' = fresh t \<and> size_of t' = size_of t"
proof -
  note rd = read_focus[OF m] read_L[OF m] read_LL[OF m] colorOf_R[OF m]
  have ne: "root t \<noteq> Some n" "ptr U \<noteq> Some n"
    using root_neq[OF m, of n] m by (auto simp: models_plug)
  from paint_L[OF m, of black] obtain t1 where
    s1: "put t (Some p) (\<lambda>n. n\<lparr>Color := black\<rparr>) = Some t1" and
    m1: "models t1 (plug c (N (N (N A n cn kn vn B) p black kp vp S) g gc kg vg U))" and
    f1: "fresh t1 = fresh t" "size_of t1 = size_of t" by blast
  note rd1 = read_focus[OF m1] read_L[OF m1] read_LL[OF m1]
  from paint_focus[OF m1, of red] obtain t2 where
    s2: "put t1 (Some g) (\<lambda>n. n\<lparr>Color := red\<rparr>) = Some t2" and
    m2: "models t2 (plug c (N (N (N A n cn kn vn B) p black kp vp S) g red kg vg U))" and
    f2: "fresh t2 = fresh t1" "size_of t2 = size_of t1" by blast
  note rd2 = read_focus[OF m2] read_L[OF m2] read_LL[OF m2]
  from rotateRight_focus[OF m2] obtain t3 where
    s3: "rotateRight t2 (Some g) = Some t3" and
    m3: "models t3 (plug c (N (N A n cn kn vn B) p black kp vp (N S g red kg vg U)))" and
    f3: "fresh t3 = fresh t2" "size_of t3 = size_of t2" by blast
  have "insertFixup t (Some n) = insertFixup t3 (Some n)"
    by (subst insertFixup.simps)
       (simp add: exec rd rd1 rd2 s1 s2 s3 ne ne[symmetric] u)
  with m3 f1 f2 f3 show ?thesis by auto
qed


lemmas rotateRight_R = rotateRight_focus[of _ "InR bl b bc bk bv c", unfolded plug.simps cptr.simps] for c b bc bk bv bl
lemmas rotateLeft_L = rotateLeft_focus[of _ "InL c b bc bk bv br", unfolded plug.simps cptr.simps] for c b bc bk bv br

lemma child_parent:
  assumes "models t (plug c (N l a cl k v r))" and "ptr l = Some n \<or> ptr r = Some n"
  shows "map_option Parent (heap t n) = Some (Some a)"
  using assms by (cases l; cases r) (auto simp: models_plug)

lemmas child_parent_L = child_parent[of _ "InL c b bc bk bv br", unfolded plug.simps cptr.simps] for c b bc bk bv br
lemmas child_parent_R = child_parent[of _ "InR bl b bc bk bv c", unfolded plug.simps cptr.simps] for c b bc bk bv bl

lemma child_in:
  "ptr l = Some n \<or> ptr r = Some n \<Longrightarrow> n \<in> set (addrs l) \<union> set (addrs r)"
  by (cases l; cases r) auto

lemma ifix_L_red:
  assumes m: "models t (plug c (N (N Pl p red kp vp Pr) g gc kg vg (N Ul u red ku vu Ur)))"
    and n: "ptr Pl = Some n \<or> ptr Pr = Some n"
  shows "\<exists>t'. insertFixup t (Some n) = insertFixup t' (Some g)
            \<and> models t' (plug c (N (N Pl p black kp vp Pr) g red kg vg (N Ul u black ku vu Ur)))
            \<and> fresh t' = fresh t \<and> size_of t' = size_of t"
proof -
  note rd = read_focus[OF m] read_L[OF m] read_R[OF m] child_parent_L[OF m n]
  have ne: "root t \<noteq> Some n"
    using root_neq[OF m, of n] child_in[OF n] by auto
  from paint_L[OF m, of black] obtain t1 where
    s1: "put t (Some p) (\<lambda>n. n\<lparr>Color := black\<rparr>) = Some t1" and
    m1: "models t1 (plug c (N (N Pl p black kp vp Pr) g gc kg vg (N Ul u red ku vu Ur)))" and
    f1: "fresh t1 = fresh t" "size_of t1 = size_of t" by blast
  from paint_R[OF m1, of black] obtain t2 where
    s2: "put t1 (Some u) (\<lambda>n. n\<lparr>Color := black\<rparr>) = Some t2" and
    m2: "models t2 (plug c (N (N Pl p black kp vp Pr) g gc kg vg (N Ul u black ku vu Ur)))" and
    f2: "fresh t2 = fresh t1" "size_of t2 = size_of t1" by blast
  note rd2 = read_L[OF m2] child_parent_L[OF m2 n]
  from paint_focus[OF m2, of red] obtain t3 where
    s3: "put t2 (Some g) (\<lambda>n. n\<lparr>Color := red\<rparr>) = Some t3" and
    m3: "models t3 (plug c (N (N Pl p black kp vp Pr) g red kg vg (N Ul u black ku vu Ur)))" and
    f3: "fresh t3 = fresh t2" "size_of t3 = size_of t2" by blast
  note rd3 = read_L[OF m3] child_parent_L[OF m3 n]
  have "insertFixup t (Some n) = insertFixup t3 (Some g)"
    by (subst insertFixup.simps)
       (simp add: exec rd rd2 rd3 s1 s2 s3 ne ne[symmetric])
  with m3 f1 f2 f3 show ?thesis by auto
qed

lemma ifix_R_red:
  assumes m: "models t (plug c (N (N Ul u red ku vu Ur) g gc kg vg (N Pl p red kp vp Pr)))"
    and n: "ptr Pl = Some n \<or> ptr Pr = Some n"
  shows "\<exists>t'. insertFixup t (Some n) = insertFixup t' (Some g)
            \<and> models t' (plug c (N (N Ul u black ku vu Ur) g red kg vg (N Pl p black kp vp Pr)))
            \<and> fresh t' = fresh t \<and> size_of t' = size_of t"
proof -
  note rd = read_focus[OF m] read_L[OF m] read_R[OF m] child_parent_R[OF m n]
  have ne: "root t \<noteq> Some n" "u \<noteq> p"
    using root_neq[OF m, of n] child_in[OF n] m by (auto simp: models_plug)
  from paint_R[OF m, of black] obtain t1 where
    s1: "put t (Some p) (\<lambda>n. n\<lparr>Color := black\<rparr>) = Some t1" and
    m1: "models t1 (plug c (N (N Ul u red ku vu Ur) g gc kg vg (N Pl p black kp vp Pr)))" and
    f1: "fresh t1 = fresh t" "size_of t1 = size_of t" by blast
  from paint_L[OF m1, of black] obtain t2 where
    s2: "put t1 (Some u) (\<lambda>n. n\<lparr>Color := black\<rparr>) = Some t2" and
    m2: "models t2 (plug c (N (N Ul u black ku vu Ur) g gc kg vg (N Pl p black kp vp Pr)))" and
    f2: "fresh t2 = fresh t1" "size_of t2 = size_of t1" by blast
  note rd2 = read_R[OF m2] child_parent_R[OF m2 n]
  from paint_focus[OF m2, of red] obtain t3 where
    s3: "put t2 (Some g) (\<lambda>n. n\<lparr>Color := red\<rparr>) = Some t3" and
    m3: "models t3 (plug c (N (N Ul u black ku vu Ur) g red kg vg (N Pl p black kp vp Pr)))" and
    f3: "fresh t3 = fresh t2" "size_of t3 = size_of t2" by blast
  note rd3 = read_R[OF m3] child_parent_R[OF m3 n]
  have "insertFixup t (Some n) = insertFixup t3 (Some g)"
    by (subst insertFixup.simps)
       (simp add: exec rd rd2 rd3 s1 s2 s3 ne ne[symmetric])
  with m3 f1 f2 f3 show ?thesis by auto
qed

lemma ifix_RR_black:
  assumes m: "models t (plug c (N U g gc kg vg (N S p red kp vp (N A n cn kn vn B))))"
    and u: "col U = black"
  shows "\<exists>t'. insertFixup t (Some n) = insertFixup t' (Some n)
            \<and> models t' (plug c (N (N U g red kg vg S) p black kp vp (N A n cn kn vn B)))
            \<and> fresh t' = fresh t \<and> size_of t' = size_of t"
proof -
  note rd = read_focus[OF m] read_R[OF m] read_RR[OF m] colorOf_L[OF m]
  have ne: "root t \<noteq> Some n" "ptr U \<noteq> Some p" "ptr S \<noteq> Some n"
    using root_neq[OF m, of n] m by (auto simp: models_plug)
  from paint_R[OF m, of black] obtain t1 where
    s1: "put t (Some p) (\<lambda>n. n\<lparr>Color := black\<rparr>) = Some t1" and
    m1: "models t1 (plug c (N U g gc kg vg (N S p black kp vp (N A n cn kn vn B))))" and
    f1: "fresh t1 = fresh t" "size_of t1 = size_of t" by blast
  note rd1 = read_focus[OF m1] read_R[OF m1] read_RR[OF m1]
  from paint_focus[OF m1, of red] obtain t2 where
    s2: "put t1 (Some g) (\<lambda>n. n\<lparr>Color := red\<rparr>) = Some t2" and
    m2: "models t2 (plug c (N U g red kg vg (N S p black kp vp (N A n cn kn vn B))))" and
    f2: "fresh t2 = fresh t1" "size_of t2 = size_of t1" by blast
  note rd2 = read_focus[OF m2] read_R[OF m2] read_RR[OF m2]
  from rotateLeft_focus[OF m2] obtain t3 where
    s3: "rotateLeft t2 (Some g) = Some t3" and
    m3: "models t3 (plug c (N (N U g red kg vg S) p black kp vp (N A n cn kn vn B)))" and
    f3: "fresh t3 = fresh t2" "size_of t3 = size_of t2" by blast
  have "insertFixup t (Some n) = insertFixup t3 (Some n)"
    by (subst insertFixup.simps)
       (simp add: exec rd rd1 rd2 s1 s2 s3 ne ne[symmetric] u)
  with m3 f1 f2 f3 show ?thesis by auto
qed

lemma ifix_RL_black:
  assumes m: "models t (plug c (N U g gc kg vg (N (N A n cn kn vn B) p red kp vp S)))"
    and u: "col U = black"
  shows "\<exists>t'. insertFixup t (Some n) = insertFixup t' (Some p)
            \<and> models t' (plug c (N (N U g red kg vg A) n black kn vn (N B p red kp vp S)))
            \<and> fresh t' = fresh t \<and> size_of t' = size_of t"
proof -
  note rd = read_focus[OF m] read_R[OF m] read_RL[OF m] colorOf_L[OF m]
  have ne: "root t \<noteq> Some n" "ptr U \<noteq> Some p"
    using root_neq[OF m, of n] m by (auto simp: models_plug)
  from rotateRight_R[OF m] obtain t1 where
    s1: "rotateRight t (Some p) = Some t1" and
    m1: "models t1 (plug c (N U g gc kg vg (N A n cn kn vn (N B p red kp vp S))))" and
    f1: "fresh t1 = fresh t" "size_of t1 = size_of t" by blast
  note rd1 = read_focus[OF m1] read_R[OF m1] read_RR[OF m1]
  from paint_R[OF m1, of black] obtain t2 where
    s2: "put t1 (Some n) (\<lambda>n. n\<lparr>Color := black\<rparr>) = Some t2" and
    m2: "models t2 (plug c (N U g gc kg vg (N A n black kn vn (N B p red kp vp S))))" and
    f2: "fresh t2 = fresh t1" "size_of t2 = size_of t1" by blast
  note rd2 = read_focus[OF m2] read_R[OF m2] read_RR[OF m2]
  from paint_focus[OF m2, of red] obtain t3 where
    s3: "put t2 (Some g) (\<lambda>n. n\<lparr>Color := red\<rparr>) = Some t3" and
    m3: "models t3 (plug c (N U g red kg vg (N A n black kn vn (N B p red kp vp S))))" and
    f3: "fresh t3 = fresh t2" "size_of t3 = size_of t2" by blast
  note rd3 = read_focus[OF m3] read_R[OF m3] read_RR[OF m3]
  from rotateLeft_focus[OF m3] obtain t4 where
    s4: "rotateLeft t3 (Some g) = Some t4" and
    m4: "models t4 (plug c (N (N U g red kg vg A) n black kn vn (N B p red kp vp S)))" and
    f4: "fresh t4 = fresh t3" "size_of t4 = size_of t3" by blast
  have "insertFixup t (Some n) = insertFixup t4 (Some p)"
    by (subst insertFixup.simps)
       (simp add: exec rd rd1 rd2 rd3 s1 s2 s3 s4 ne ne[symmetric] u)
  with m4 f1 f2 f3 f4 show ?thesis by auto
qed


lemma ifix_LR_black:
  assumes m: "models t (plug c (N (N S p red kp vp (N A n cn kn vn B)) g gc kg vg U))"
    and u: "col U = black" and sb: "col S = black"
  shows "\<exists>t'. insertFixup t (Some n) = insertFixup t' (Some g)
            \<and> models t' (plug c (N (N S p red kp vp A) n black kn vn (N B g red kg vg U)))
            \<and> fresh t' = fresh t \<and> size_of t' = size_of t"
proof -
  note rd = read_focus[OF m] read_L[OF m] read_LR[OF m] colorOf_R[OF m]
  have ne: "root t \<noteq> Some n" "ptr U \<noteq> Some n"
    using root_neq[OF m, of n] m by (auto simp: models_plug)
  from paint_L[OF m, of black] obtain t1 where
    s1: "put t (Some p) (\<lambda>n. n\<lparr>Color := black\<rparr>) = Some t1" and
    m1: "models t1 (plug c (N (N S p black kp vp (N A n cn kn vn B)) g gc kg vg U))" and
    f1: "fresh t1 = fresh t" "size_of t1 = size_of t" by blast
  note rd1 = read_focus[OF m1] read_L[OF m1] read_LR[OF m1]
  from paint_focus[OF m1, of red] obtain t2 where
    s2: "put t1 (Some g) (\<lambda>n. n\<lparr>Color := red\<rparr>) = Some t2" and
    m2: "models t2 (plug c (N (N S p black kp vp (N A n cn kn vn B)) g red kg vg U))" and
    f2: "fresh t2 = fresh t1" "size_of t2 = size_of t1" by blast
  note rd2 = read_focus[OF m2] read_L[OF m2] read_LR[OF m2]
  from rotateRight_focus[OF m2] obtain t3 where
    s3: "rotateRight t2 (Some g) = Some t3" and
    m3: "models t3 (plug c (N S p black kp vp (N (N A n cn kn vn B) g red kg vg U)))" and
    f3: "fresh t3 = fresh t2" "size_of t3 = size_of t2" by blast
  have step1: "insertFixup t (Some n) = insertFixup t3 (Some n)"
    by (subst insertFixup.simps)
       (simp add: exec rd rd1 rd2 s1 s2 s3 ne ne[symmetric] u)
  note rd3 = read_focus[OF m3] read_R[OF m3] read_RL[OF m3] colorOf_L[OF m3]
  have ne3: "root t3 \<noteq> Some n" "ptr S \<noteq> Some g"
    using root_neq[OF m3, of n] m3 by (auto simp: models_plug)
  from rotateRight_R[OF m3] obtain t4 where
    s4: "rotateRight t3 (Some g) = Some t4" and
    m4: "models t4 (plug c (N S p black kp vp (N A n cn kn vn (N B g red kg vg U))))" and
    f4: "fresh t4 = fresh t3" "size_of t4 = size_of t3" by blast
  note rd4 = read_focus[OF m4] read_R[OF m4] read_RR[OF m4]
  from paint_R[OF m4, of black] obtain t5 where
    s5: "put t4 (Some n) (\<lambda>n. n\<lparr>Color := black\<rparr>) = Some t5" and
    m5: "models t5 (plug c (N S p black kp vp (N A n black kn vn (N B g red kg vg U))))" and
    f5: "fresh t5 = fresh t4" "size_of t5 = size_of t4" by blast
  note rd5 = read_focus[OF m5] read_R[OF m5] read_RR[OF m5]
  from paint_focus[OF m5, of red] obtain t6 where
    s6: "put t5 (Some p) (\<lambda>n. n\<lparr>Color := red\<rparr>) = Some t6" and
    m6: "models t6 (plug c (N S p red kp vp (N A n black kn vn (N B g red kg vg U))))" and
    f6: "fresh t6 = fresh t5" "size_of t6 = size_of t5" by blast
  note rd6 = read_focus[OF m6] read_R[OF m6] read_RR[OF m6]
  from rotateLeft_focus[OF m6] obtain t7 where
    s7: "rotateLeft t6 (Some p) = Some t7" and
    m7: "models t7 (plug c (N (N S p red kp vp A) n black kn vn (N B g red kg vg U)))" and
    f7: "fresh t7 = fresh t6" "size_of t7 = size_of t6" by blast
  have step2: "insertFixup t3 (Some n) = insertFixup t7 (Some g)"
    by (subst insertFixup.simps)
       (simp add: exec rd3 rd4 rd5 rd6 s4 s5 s6 s7 ne3 ne3[symmetric] sb)
  from step1 step2 m7 f1 f2 f3 f4 f5 f6 f7 show ?thesis by auto
qed

lemma ifix_exit:
  assumes m: "models t (plug c (N A n cn kn vn B))" and c: "c = Top \<or> ccol c = black"
  shows "insertFixup t (Some n) = put t (root t) (\<lambda>n. n\<lparr>Color := black\<rparr>)"
proof (cases c)
  case Top
  with m have "root t = Some n" by (simp add: models_def)
  then show ?thesis by (subst insertFixup.simps) simp
next
  case (InL c' p pc kp vp S)
  from m have m': "models t (plug c' (N (N A n cn kn vn B) p pc kp vp S))"
    by (simp add: InL)
  note rd = read_focus[OF m'] read_L[OF m']
  have ne: "root t \<noteq> Some n" using root_neq[OF m', of n] by simp
  from c InL have "pc = black" by simp
  then show ?thesis
    by (subst insertFixup.simps) (simp add: exec rd ne ne[symmetric])
next
  case (InR S p pc kp vp c')
  from m have m': "models t (plug c' (N S p pc kp vp (N A n cn kn vn B)))"
    by (simp add: InR)
  note rd = read_focus[OF m'] read_R[OF m']
  have ne: "root t \<noteq> Some n" using root_neq[OF m', of n] by simp
  from c InR have "pc = black" by simp
  then show ?thesis
    by (subst insertFixup.simps) (simp add: exec rd ne ne[symmetric])
qed

lemma paint_root:
  assumes "models t (N l a cl k v r)"
  shows "\<exists>t'. put t (root t) (\<lambda>n. n\<lparr>Color := x\<rparr>) = Some t'
            \<and> models t' (N l a x k v r)
            \<and> fresh t' = fresh t \<and> size_of t' = size_of t"
proof -
  from assms have r: "root t = Some a" by (simp add: models_def)
  from assms have "models t (plug Top (N l a cl k v r))" by simp
  from paint_focus[OF this, of x] show ?thesis by (auto simp: r)
qed


section \<open>Correctness of the insert fixup\<close>


lemma not_red [simp]: "(c \<noteq> red) = (c = black)"
  by (cases c) auto

lemma not_black [simp]: "(c \<noteq> black) = (c = red)"
  by (cases c) auto

lemma rb_plug:
  "rb_tree (plug c W) \<longleftrightarrow>
     cinv c (bh W) \<and> bh_ok W \<and> no_red_red W
     \<and> (ccol c = red \<longrightarrow> col W = black) \<and> (c = Top \<longrightarrow> col W = black)"
proof (induction c arbitrary: W)
  case Top
  show ?case by (auto simp: rb_tree_def)
next
  case (InL c a cl k v r)
  show ?case
    by (cases cl) (auto simp: InL.IH)
next
  case (InR l a cl k v c)
  show ?case
    by (cases cl) (auto simp: InR.IH)
qed


lemma plug_not_E: "plug c (N l a cl k v r) \<noteq> E"
  by (induction c arbitrary: l a cl k v r) auto

lemma ifix_done:
  assumes m: "models t (plug c (N A n cn kn vn B))"
    and c: "c = Top \<or> ccol c = black"
    and inv: "cinv c (bh (N A n cn kn vn B))" "bh_ok (N A n cn kn vn B)"
      "no_red_red A" "no_red_red B" "c \<noteq> Top \<longrightarrow> no_red_red (N A n cn kn vn B)"
  shows "\<exists>t' T'. insertFixup t (Some n) = Some t' \<and> models t' T' \<and> rb_tree T'
            \<and> entries T' = entries (plug c (N A n cn kn vn B))
            \<and> fresh t' = fresh t \<and> size_of t' = size_of t"
proof (cases "c = Top")
  case True
  with m have m': "models t (N A n cn kn vn B)" by simp
  from paint_root[OF m', of black] obtain t' where
    "put t (root t) (\<lambda>n. n\<lparr>Color := black\<rparr>) = Some t'"
    "models t' (N A n black kn vn B)" "fresh t' = fresh t" "size_of t' = size_of t"
    by blast
  moreover have "rb_tree (N A n black kn vn B)"
    using inv by (auto simp: rb_tree_def)
  ultimately show ?thesis
    using ifix_exit[OF m c] True by (intro exI[of _ t'] exI[of _ "N A n black kn vn B"]) simp
next
  case False
  with c inv have rb: "rb_tree (plug c (N A n cn kn vn B))"
    by (simp add: rb_plug)
  obtain l a cl k v r where T: "plug c (N A n cn kn vn B) = N l a cl k v r"
    using plug_not_E[of c A n cn kn vn B] by (cases "plug c (N A n cn kn vn B)") auto
  with rb have cl: "cl = black" by (simp add: rb_tree_def)
  from m T have m': "models t (N l a cl k v r)" by simp
  from paint_root[OF m', of black] obtain t' where
    "put t (root t) (\<lambda>n. n\<lparr>Color := black\<rparr>) = Some t'"
    "models t' (N l a black k v r)" "fresh t' = fresh t" "size_of t' = size_of t"
    by blast
  then show ?thesis
    using ifix_exit[OF m c] rb T cl
    by (intro exI[of _ t'] exI[of _ "plug c (N A n cn kn vn B)"]) simp
qed

lemma insertFixup_correct:
  "\<lbrakk>models t (plug c (N A n red kn vn B)); cinv c (bh A); bh_ok A; bh_ok B; bh B = bh A;
    no_red_red A; no_red_red B; col A = black; col B = black\<rbrakk>
   \<Longrightarrow> \<exists>t' T'. insertFixup t (Some n) = Some t' \<and> models t' T' \<and> rb_tree T'
            \<and> entries T' = entries (plug c (N A n red kn vn B))
            \<and> fresh t' = fresh t \<and> size_of t' = size_of t"
proof (induction "length (caddrs c)" arbitrary: c t A n kn vn B rule: less_induct)
  case less
  note m = less.prems(1) and ci = less.prems(2) and inv = less.prems(3-9)
  let ?W = "N A n red kn vn B"
  show ?case
  proof (cases c)
    case Top
    show ?thesis by (rule ifix_done[OF m]) (use inv Top in simp_all)
  next
    case (InL c' p pc kp vp S)
    show ?thesis
    proof (cases pc)
      case black
      show ?thesis by (rule ifix_done[OF m]) (use inv ci InL black in simp_all)
    next
      case red
      with ci InL have c'ne: "c' \<noteq> Top" and c'b: "ccol c' = black"
        and S: "bh S = bh A" "bh_ok S" "no_red_red S" "col S = black"
        and ci': "cinv c' (bh A)" by auto
      show ?thesis
      proof (cases c')
        case Top
        with c'ne show ?thesis by simp
      next
        case c': (InL c'' g gc kg vg U)
        with c'b ci' have gc: "gc = black" and U: "bh U = bh A" "bh_ok U" "no_red_red U"
          and ci'': "cinv c'' (Suc (bh A))" by auto
        from m InL red c' gc
        have m0: "models t (plug c'' (N (N ?W p red kp vp S) g black kg vg U))" by simp
        show ?thesis
        proof (cases "col U")
          case ured: red
          then obtain Ul u ku vu Ur where Ueq: "U = N Ul u red ku vu Ur" by (cases U) auto
          from ifix_L_red[OF m0[unfolded Ueq], of n] obtain t1 where
            e1: "insertFixup t (Some n) = insertFixup t1 (Some g)" and
            m1: "models t1 (plug c'' (N (N ?W p black kp vp S) g red kg vg (N Ul u black ku vu Ur)))" and
            f1: "fresh t1 = fresh t" "size_of t1 = size_of t" by auto
          have lt: "length (caddrs c'') < length (caddrs c)" by (simp add: InL c')
          have "\<exists>t' T'. insertFixup t1 (Some g) = Some t' \<and> models t' T' \<and> rb_tree T'
            \<and> entries T' = entries (plug c'' (N (N ?W p black kp vp S) g red kg vg (N Ul u black ku vu Ur)))
            \<and> fresh t' = fresh t1 \<and> size_of t' = size_of t1"
            by (rule less.hyps[OF lt m1]) (use ci'' inv S U Ueq in simp_all)
          then show ?thesis using e1 f1
            by (simp add: InL c' Ueq entries_plug)
        next
          case ublack: black
          from ifix_LL_black[OF m0 ublack] obtain t1 where
            e1: "insertFixup t (Some n) = insertFixup t1 (Some n)" and
            m1: "models t1 (plug c'' (N ?W p black kp vp (N S g red kg vg U)))" and
            f1: "fresh t1 = fresh t" "size_of t1 = size_of t" by auto
          from m1 have m1': "models t1 (plug (InL c'' p black kp vp (N S g red kg vg U)) ?W)"
            by simp
          have "\<exists>t' T'. insertFixup t1 (Some n) = Some t' \<and> models t' T' \<and> rb_tree T'
            \<and> entries T' = entries (plug (InL c'' p black kp vp (N S g red kg vg U)) ?W)
            \<and> fresh t' = fresh t1 \<and> size_of t' = size_of t1"
            by (rule ifix_done[OF m1']) (use ci'' inv S U ublack in simp_all)
          then show ?thesis using e1 f1
            by (simp add: InL c' entries_plug)
        qed
      next
        case c': (InR U g gc kg vg c'')
        with c'b ci' have gc: "gc = black" and U: "bh U = bh A" "bh_ok U" "no_red_red U"
          and ci'': "cinv c'' (Suc (bh A))" by auto
        from m InL red c' gc
        have m0: "models t (plug c'' (N U g black kg vg (N ?W p red kp vp S)))" by simp
        show ?thesis
        proof (cases "col U")
          case ured: red
          then obtain Ul u ku vu Ur where Ueq: "U = N Ul u red ku vu Ur" by (cases U) auto
          from ifix_R_red[OF m0[unfolded Ueq], of n] obtain t1 where
            e1: "insertFixup t (Some n) = insertFixup t1 (Some g)" and
            m1: "models t1 (plug c'' (N (N Ul u black ku vu Ur) g red kg vg (N ?W p black kp vp S)))" and
            f1: "fresh t1 = fresh t" "size_of t1 = size_of t" by auto
          have lt: "length (caddrs c'') < length (caddrs c)" by (simp add: InL c')
          have "\<exists>t' T'. insertFixup t1 (Some g) = Some t' \<and> models t' T' \<and> rb_tree T'
            \<and> entries T' = entries (plug c'' (N (N Ul u black ku vu Ur) g red kg vg (N ?W p black kp vp S)))
            \<and> fresh t' = fresh t1 \<and> size_of t' = size_of t1"
            by (rule less.hyps[OF lt m1]) (use ci'' inv S U Ueq in simp_all)
          then show ?thesis using e1 f1
            by (simp add: InL c' Ueq entries_plug)
        next
          case ublack: black
          from ifix_RL_black[OF m0 ublack] obtain t1 where
            e1: "insertFixup t (Some n) = insertFixup t1 (Some p)" and
            m1: "models t1 (plug c'' (N (N U g red kg vg A) n black kn vn (N B p red kp vp S)))" and
            f1: "fresh t1 = fresh t" "size_of t1 = size_of t" by auto
          from m1 have m1': "models t1 (plug (InR (N U g red kg vg A) n black kn vn c'') (N B p red kp vp S))"
            by simp
          have "\<exists>t' T'. insertFixup t1 (Some p) = Some t' \<and> models t' T' \<and> rb_tree T'
            \<and> entries T' = entries (plug (InR (N U g red kg vg A) n black kn vn c'') (N B p red kp vp S))
            \<and> fresh t' = fresh t1 \<and> size_of t' = size_of t1"
            by (rule ifix_done[OF m1']) (use ci'' inv S U ublack in simp_all)
          then show ?thesis using e1 f1
            by (simp add: InL c' entries_plug)
        qed
      qed
    qed
  next
    case (InR S p pc kp vp c')
    show ?thesis
    proof (cases pc)
      case black
      show ?thesis by (rule ifix_done[OF m]) (use inv ci InR black in simp_all)
    next
      case red
      with ci InR have c'ne: "c' \<noteq> Top" and c'b: "ccol c' = black"
        and S: "bh S = bh A" "bh_ok S" "no_red_red S" "col S = black"
        and ci': "cinv c' (bh A)" by auto
      show ?thesis
      proof (cases c')
        case Top
        with c'ne show ?thesis by simp
      next
        case c': (InL c'' g gc kg vg U)
        with c'b ci' have gc: "gc = black" and U: "bh U = bh A" "bh_ok U" "no_red_red U"
          and ci'': "cinv c'' (Suc (bh A))" by auto
        from m InR red c' gc
        have m0: "models t (plug c'' (N (N S p red kp vp ?W) g black kg vg U))" by simp
        show ?thesis
        proof (cases "col U")
          case ured: red
          then obtain Ul u ku vu Ur where Ueq: "U = N Ul u red ku vu Ur" by (cases U) auto
          from ifix_L_red[OF m0[unfolded Ueq], of n] obtain t1 where
            e1: "insertFixup t (Some n) = insertFixup t1 (Some g)" and
            m1: "models t1 (plug c'' (N (N S p black kp vp ?W) g red kg vg (N Ul u black ku vu Ur)))" and
            f1: "fresh t1 = fresh t" "size_of t1 = size_of t" by auto
          have lt: "length (caddrs c'') < length (caddrs c)" by (simp add: InR c')
          have "\<exists>t' T'. insertFixup t1 (Some g) = Some t' \<and> models t' T' \<and> rb_tree T'
            \<and> entries T' = entries (plug c'' (N (N S p black kp vp ?W) g red kg vg (N Ul u black ku vu Ur)))
            \<and> fresh t' = fresh t1 \<and> size_of t' = size_of t1"
            by (rule less.hyps[OF lt m1]) (use ci'' inv S U Ueq in simp_all)
          then show ?thesis using e1 f1
            by (simp add: InR c' Ueq entries_plug)
        next
          case ublack: black
          from ifix_LR_black[OF m0 ublack S(4)] obtain t1 where
            e1: "insertFixup t (Some n) = insertFixup t1 (Some g)" and
            m1: "models t1 (plug c'' (N (N S p red kp vp A) n black kn vn (N B g red kg vg U)))" and
            f1: "fresh t1 = fresh t" "size_of t1 = size_of t" by auto
          from m1 have m1': "models t1 (plug (InR (N S p red kp vp A) n black kn vn c'') (N B g red kg vg U))"
            by simp
          have "\<exists>t' T'. insertFixup t1 (Some g) = Some t' \<and> models t' T' \<and> rb_tree T'
            \<and> entries T' = entries (plug (InR (N S p red kp vp A) n black kn vn c'') (N B g red kg vg U))
            \<and> fresh t' = fresh t1 \<and> size_of t' = size_of t1"
            by (rule ifix_done[OF m1']) (use ci'' inv S U ublack in simp_all)
          then show ?thesis using e1 f1
            by (simp add: InR c' entries_plug)
        qed
      next
        case c': (InR U g gc kg vg c'')
        with c'b ci' have gc: "gc = black" and U: "bh U = bh A" "bh_ok U" "no_red_red U"
          and ci'': "cinv c'' (Suc (bh A))" by auto
        from m InR red c' gc
        have m0: "models t (plug c'' (N U g black kg vg (N S p red kp vp ?W)))" by simp
        show ?thesis
        proof (cases "col U")
          case ured: red
          then obtain Ul u ku vu Ur where Ueq: "U = N Ul u red ku vu Ur" by (cases U) auto
          from ifix_R_red[OF m0[unfolded Ueq], of n] obtain t1 where
            e1: "insertFixup t (Some n) = insertFixup t1 (Some g)" and
            m1: "models t1 (plug c'' (N (N Ul u black ku vu Ur) g red kg vg (N S p black kp vp ?W)))" and
            f1: "fresh t1 = fresh t" "size_of t1 = size_of t" by auto
          have lt: "length (caddrs c'') < length (caddrs c)" by (simp add: InR c')
          have "\<exists>t' T'. insertFixup t1 (Some g) = Some t' \<and> models t' T' \<and> rb_tree T'
            \<and> entries T' = entries (plug c'' (N (N Ul u black ku vu Ur) g red kg vg (N S p black kp vp ?W)))
            \<and> fresh t' = fresh t1 \<and> size_of t' = size_of t1"
            by (rule less.hyps[OF lt m1]) (use ci'' inv S U Ueq in simp_all)
          then show ?thesis using e1 f1
            by (simp add: InR c' Ueq entries_plug)
        next
          case ublack: black
          from ifix_RR_black[OF m0 ublack] obtain t1 where
            e1: "insertFixup t (Some n) = insertFixup t1 (Some n)" and
            m1: "models t1 (plug c'' (N (N U g red kg vg S) p black kp vp ?W))" and
            f1: "fresh t1 = fresh t" "size_of t1 = size_of t" by auto
          from m1 have m1': "models t1 (plug (InR (N U g red kg vg S) p black kp vp c'') ?W)"
            by simp
          have "\<exists>t' T'. insertFixup t1 (Some n) = Some t' \<and> models t' T' \<and> rb_tree T'
            \<and> entries T' = entries (plug (InR (N U g red kg vg S) p black kp vp c'') ?W)
            \<and> fresh t' = fresh t1 \<and> size_of t' = size_of t1"
            by (rule ifix_done[OF m1']) (use ci'' inv S U ublack in simp_all)
          then show ?thesis using e1 f1
            by (simp add: InR c' entries_plug)
        qed
      qed
    qed
  qed
qed


section \<open>Search and the descent of insert\<close>


lemma descend_plug: "descend key c W = (c', W') \<Longrightarrow> plug c' W' = plug c W"
  by (induction W arbitrary: c) (auto split: if_splits)

lemma descend_result:
  "descend key c W = (c', W') \<Longrightarrow> W' = E \<or> (\<exists>l a cl v r. W' = N l a cl key v r)"
  by (induction W arbitrary: c) (auto split: if_splits)

lemma sorted_entries_plug:
  "bst (plug c W) \<longleftrightarrow> sorted_wrt (<) (map fst (cleft c) @ keys W @ map fst (cright c))"
  by (simp add: bst_def keys_def entries_plug)

lemma descend_fits:
  "\<lbrakk>descend key c W = (c', W'); bst (plug c W); fits key c\<rbrakk> \<Longrightarrow> fits key c'"
proof (induction W arbitrary: c)
  case E
  then show ?case by simp
next
  case (N l a cl k v r)
  show ?case
  proof (cases "key < k")
    case True
    with N.prems have d: "descend key (InL c a cl k v r) l = (c', W')" by simp
    from N.prems(2) have b: "bst (plug (InL c a cl k v r) l)" by simp
    from N.prems(2) have "\<forall>x\<in>set (keys r). k < x"
      by (auto simp: sorted_entries_plug keys_def sorted_wrt_append)
    with True N.prems(3) have "fits key (InL c a cl k v r)"
      by (force simp: fits_def list_all_iff keys_def)
    from N.IH(1)[OF d b this] show ?thesis .
  next
    case False
    show ?thesis
    proof (cases "k < key")
      case True
      with False N.prems have d: "descend key (InR l a cl k v c) r = (c', W')" by simp
      from N.prems(2) have b: "bst (plug (InR l a cl k v c) r)" by simp
      from N.prems(2) have "\<forall>x\<in>set (keys l). x < k"
        by (auto simp: sorted_entries_plug keys_def sorted_wrt_append)
      with True N.prems(3) have "fits key (InR l a cl k v c)"
        by (force simp: fits_def list_all_iff keys_def)
      from N.IH(2)[OF d b this] show ?thesis .
    next
      case False
      with \<open>\<not> key < k\<close> N.prems show ?thesis by simp
    qed
  qed
qed

lemma search_loop_descend:
  "models t (plug c W) \<Longrightarrow> search_loop t key (ptr W) = Some (ptr (snd (descend key c W)))"
proof (induction W arbitrary: c)
  case E
  show ?case by (subst search_loop.simps) simp
next
  case (N l a cl k v r)
  note rd = read_focus[OF N.prems]
  from N.prems have ml: "models t (plug (InL c a cl k v r) l)"
    and mr: "models t (plug (InR l a cl k v c) r)" by simp_all
  show ?case
    by (subst search_loop.simps) (simp add: exec rd N.IH(1)[OF ml] N.IH(2)[OF mr])
qed

lemma insert_loop_descend:
  "models t (plug c W) \<Longrightarrow>
   insert_loop t key (cptr c) (ptr W) =
     (case descend key c W of (c', W') \<Rightarrow>
        Some (W' \<noteq> E, if W' = E then cptr c' else ptr W'))"
proof (induction W arbitrary: c)
  case E
  show ?case by (subst insert_loop.simps) simp
next
  case (N l a cl k v r)
  note rd = read_focus[OF N.prems]
  from N.prems have ml: "models t (plug (InL c a cl k v r) l)"
    and mr: "models t (plug (InR l a cl k v c) r)" by simp_all
  show ?case
    using N.IH(1)[OF ml] N.IH(2)[OF mr]
    by (subst insert_loop.simps) (simp add: exec rd)
qed


section \<open>Correctness of Insert\<close>


lemma upsert_append_hi:
  "list_all (\<lambda>(k, v). k < key) xs \<Longrightarrow> upsert key val (xs @ ys) = xs @ upsert key val ys"
  by (induction xs) (auto)

lemma upsert_lo:
  "list_all (\<lambda>(k, v). key < k) ys \<Longrightarrow> upsert key val ys = (key, val) # ys"
  by (cases ys) auto

lemma fresh_notin [simp]: "list_all (\<lambda>a. a < n) xs \<Longrightarrow> (n::nat) \<notin> set xs"
  by (force simp: list_all_iff)

lemma fresh_Suc [simp]: "list_all (\<lambda>a. a < n) xs \<Longrightarrow> list_all (\<lambda>a. a < Suc n) xs"
  by (auto simp: list_all_iff)

lemma setval_focus:
  assumes "models t (plug c (N l a cl k v r))"
  shows "\<exists>nd. heap t a = Some nd \<and> Key nd = k
            \<and> put t (Some a) (\<lambda>n. n\<lparr>Value := x\<rparr>) = Some (t\<lparr>heap := (heap t)(a := Some (nd\<lparr>Value := x\<rparr>))\<rparr>)
            \<and> models (t\<lparr>heap := (heap t)(a := Some (nd\<lparr>Value := x\<rparr>))\<rparr>) (plug c (N l a cl k x r))"
  using assms by (simp add: models_plug heap_ops)

lemma Insert_alt:
  "Insert t key val =
     do { (found, p) \<leftarrow> insert_loop t key None (root t);
          if found then put t p (\<lambda>n. n\<lparr>Value := val\<rparr>)
          else do { t1 \<leftarrow> attach_node t key val p;
                    t2 \<leftarrow> insertFixup t1 (Some (fresh t));
                    Some (t2\<lparr>size_of := size_of t2 + 1\<rparr>) } }"
  unfolding Insert_def attach_node_def Let_def by (rule refl)

lemma attach:
  assumes m: "models t (plug c E)" and f: "fits key c"
  shows "\<exists>t1. attach_node t key val (cptr c) = Some t1
            \<and> models t1 (plug c (N E (fresh t) red key val E))
            \<and> fresh t1 = Suc (fresh t) \<and> size_of t1 = size_of t"
proof (cases c)
  case Top
  with m show ?thesis by (simp add: models_def attach_node_def)
next
  case (InL c' p pc kp vp S)
  with f have "key < kp" by (simp add: fits_def)
  with m InL show ?thesis
    by (simp add: models_plug heap_ops attach_node_def)
next
  case (InR S p pc kp vp c')
  with f have "kp < key" by (simp add: fits_def)
  then have "\<not> key < kp" by simp
  with m InR show ?thesis
    by (simp add: models_plug heap_ops attach_node_def)
qed

lemma models_size [simp]: "models (t\<lparr>size_of := x\<rparr>) T = models t T"
  by (simp add: models_def)

lemma fits_absent: "fits key c \<Longrightarrow> key \<notin> set (keys (plug c E))"
  by (force simp: fits_def keys_def entries_plug list_all_iff)

lemma fits_Top [simp]: "fits key Top"
  by (simp add: fits_def)

lemma Insert_absent:
  assumes m: "models t T" and rb: "rb_tree T" and b: "bst T"
    and d: "descend key Top T = (c, E)"
  shows "\<exists>t' T'. Insert t key val = Some t' \<and> models t' T' \<and> rb_tree T'
            \<and> entries T' = upsert key val (entries T)
            \<and> size_of t' = size_of t + 1 \<and> fresh t' = Suc (fresh t) \<and> key \<notin> set (keys T)"
proof -
  from descend_plug[OF d] have T: "T = plug c E" by simp
  from b have f: "fits key c" using descend_fits[OF d] by simp
  from m have r: "root t = ptr T" by (simp add: models_def)
  from m have "models t (plug Top T)" by simp
  from insert_loop_descend[OF this, of key] d r
  have il: "insert_loop t key None (root t) = Some (False, cptr c)" by simp
  from m T have m': "models t (plug c E)" by simp
  from attach[OF m' f, of val] obtain t1 where
    a1: "attach_node t key val (cptr c) = Some t1" and
    m1: "models t1 (plug c (N E (fresh t) red key val E))" and
    f1: "fresh t1 = Suc (fresh t)" "size_of t1 = size_of t" by blast
  from rb T have ci: "cinv c (bh (E::'a tr))" by (simp add: rb_plug)
  have "\<exists>t' T'. insertFixup t1 (Some (fresh t)) = Some t' \<and> models t' T' \<and> rb_tree T'
            \<and> entries T' = entries (plug c (N E (fresh t) red key val E))
            \<and> fresh t' = fresh t1 \<and> size_of t' = size_of t1"
    by (rule insertFixup_correct[OF m1]) (use ci in simp_all)
  then obtain t2 T2 where
    i2: "insertFixup t1 (Some (fresh t)) = Some t2" and m2: "models t2 T2" and
    rb2: "rb_tree T2" and e2: "entries T2 = entries (plug c (N E (fresh t) red key val E))" and
    f2: "fresh t2 = fresh t1" "size_of t2 = size_of t1" by blast
  have up: "upsert key val (entries T) = entries T2"
    using f by (simp add: T e2 entries_plug upsert_append_hi upsert_lo fits_def)
  have "Insert t key val = Some (t2\<lparr>size_of := size_of t2 + 1\<rparr>)"
    by (simp add: Insert_alt il a1 i2)
  with m2 rb2 up f1 f2 fits_absent[OF f] T show ?thesis
    by (intro exI[of _ "t2\<lparr>size_of := size_of t2 + 1\<rparr>"] exI[of _ T2]) simp
qed

lemma Insert_present:
  assumes m: "models t T" and b: "bst T"
    and d: "descend key Top T = (c, N l a cl k v r)"
  shows "\<exists>nd. heap t a = Some nd \<and> Key nd = key \<and> k = key
            \<and> Insert t key val = Some (t\<lparr>heap := (heap t)(a := Some (nd\<lparr>Value := val\<rparr>))\<rparr>)
            \<and> models (t\<lparr>heap := (heap t)(a := Some (nd\<lparr>Value := val\<rparr>))\<rparr>) (plug c (N l a cl key val r))
            \<and> Insert t key val = put t (Some a) (\<lambda>n. n\<lparr>Value := val\<rparr>)
            \<and> (rb_tree T \<longrightarrow> rb_tree (plug c (N l a cl key val r)))
            \<and> entries (plug c (N l a cl key val r)) = upsert key val (entries T)
            \<and> key \<in> set (keys T)"
proof -
  from descend_plug[OF d] have T: "T = plug c (N l a cl k v r)" by simp
  from descend_result[OF d] have k: "k = key" by simp
  from m have r: "root t = ptr T" by (simp add: models_def)
  from m have "models t (plug Top T)" by simp
  from insert_loop_descend[OF this, of key] d r
  have il: "insert_loop t key None (root t) = Some (True, Some a)" by simp
  from m T k have m': "models t (plug c (N l a cl key v r))" by simp
  from setval_focus[OF m', of val] obtain nd where
    nd: "heap t a = Some nd" "Key nd = key" and
    p: "put t (Some a) (\<lambda>n. n\<lparr>Value := val\<rparr>) = Some (t\<lparr>heap := (heap t)(a := Some (nd\<lparr>Value := val\<rparr>))\<rparr>)" and
    m1: "models (t\<lparr>heap := (heap t)(a := Some (nd\<lparr>Value := val\<rparr>))\<rparr>) (plug c (N l a cl key val r))"
    by blast
  have ins: "Insert t key val = Some (t\<lparr>heap := (heap t)(a := Some (nd\<lparr>Value := val\<rparr>))\<rparr>)"
    by (simp add: Insert_alt il p)
  have ins': "Insert t key val = put t (Some a) (\<lambda>n. n\<lparr>Value := val\<rparr>)"
    by (simp add: Insert_alt il)
  from T have rb': "rb_tree T \<longrightarrow> rb_tree (plug c (N l a cl key val r))" by (simp add: rb_plug)
  from b T k have "sorted_wrt (<) (map fst (cleft c @ entries l) @ key # map fst (entries r @ cright c))"
    by (simp add: bst_def keys_def entries_plug)
  then have lo: "list_all (\<lambda>(k, v). k < key) (cleft c @ entries l)"
    by (force simp: sorted_wrt_append list_all_iff)
  have "upsert key val (entries T) = (cleft c @ entries l) @ upsert key val ((key, v) # entries r @ cright c)"
    unfolding T k using upsert_append_hi[OF lo] by (simp add: entries_plug)
  then have up: "entries (plug c (N l a cl key val r)) = upsert key val (entries T)"
    by (simp add: entries_plug)
  have "key \<in> set (keys T)" by (simp add: T k keys_def entries_plug)
  with nd k ins ins' m1 rb' up show ?thesis by blast
qed


section \<open>Insert of a present key, Delete of an absent key\<close>


lemma Search_descend: "models t T \<Longrightarrow> Search t key = Some (ptr (snd (descend key Top T)))"
  using search_loop_descend[of t Top T key] by (simp add: Search_def models_def)

lemma descend_present_iff:
  assumes "bst T"
  shows "(snd (descend key Top T) \<noteq> E) = (key \<in> set (keys T))"
proof -
  obtain c W where d: "descend key Top T = (c, W)" by (cases "descend key Top T")
  from descend_plug[OF d] have T: "T = plug c W" by simp
  from descend_fits[OF d] assms have f: "fits key c" by simp
  show ?thesis
  proof (cases W)
    case E
    with fits_absent[OF f] T d show ?thesis by simp
  next
    case (N l a cl k v r)
    with descend_result[OF d] have "k = key" by simp
    with N T d show ?thesis by (simp add: keys_def entries_plug)
  qed
qed

text \<open>
  Claim C4. Inserting a key that the tree already holds overwrites the value of the node
  of the tree with that key and does nothing else. The node \<open>a\<close> is the one at which the
  tree \<open>T\<close> holds the key (\<open>T\<close> is a context \<open>c\<close> around that node); \<^verbatim>\<open>Insert\<close> is
  the single field assignment \<^verbatim>\<open>cur.Value = value\<close> on it (no fixup runs), and the store
  it returns is the old one with only the \<open>Value\<close> field of that node replaced. The
  returned store holds the same tree, in the same shape and with the same colours and
  addresses, with the new value at that node; its entries are those of \<open>T\<close> with the value
  of the key replaced; no node is created (the allocation counter is the same), every
  other node and the root pointer are as before, and \<^verbatim>\<open>Size()\<close> is unchanged.
\<close>

theorem insert_present_overwrites:
  assumes "models t T" and "bst T" and "key \<in> set (keys T)"
  shows "\<exists>a nd c l cl v r.
            T = plug c (N l a cl key v r) \<and> a \<in> set (addrs T)
            \<and> heap t a = Some nd \<and> Key nd = key
            \<and> Insert t key val = put t (Some a) (\<lambda>n. n\<lparr>Value := val\<rparr>)
            \<and> Insert t key val = Some (t\<lparr>heap := (heap t)(a := Some (nd\<lparr>Value := val\<rparr>))\<rparr>)
            \<and> models (t\<lparr>heap := (heap t)(a := Some (nd\<lparr>Value := val\<rparr>))\<rparr>)
                 (plug c (N l a cl key val r))
            \<and> entries (plug c (N l a cl key val r)) = upsert key val (entries T)
            \<and> Size (t\<lparr>heap := (heap t)(a := Some (nd\<lparr>Value := val\<rparr>))\<rparr>) = Size t"
proof -
  obtain c W where d: "descend key Top T = (c, W)" by (cases "descend key Top T")
  with descend_present_iff[OF assms(2), of key] assms(3) have "W \<noteq> E" by simp
  then obtain l a cl k v r where W: "W = N l a cl k v r" by (cases W) auto
  from descend_plug[OF d] W have T: "T = plug c (N l a cl k v r)" by simp
  then have a: "a \<in> set (addrs T)" by (simp add: set_addrs_plug)
  from Insert_present[OF assms(1,2) d[unfolded W], of val] obtain nd where
    nd: "heap t a = Some nd" "Key nd = key" "k = key"
      "Insert t key val = Some (t\<lparr>heap := (heap t)(a := Some (nd\<lparr>Value := val\<rparr>))\<rparr>)"
      "models (t\<lparr>heap := (heap t)(a := Some (nd\<lparr>Value := val\<rparr>))\<rparr>) (plug c (N l a cl key val r))"
      "Insert t key val = put t (Some a) (\<lambda>n. n\<lparr>Value := val\<rparr>)"
      "entries (plug c (N l a cl key val r)) = upsert key val (entries T)"
    by blast
  have sz: "Size (t\<lparr>heap := (heap t)(a := Some (nd\<lparr>Value := val\<rparr>))\<rparr>) = Size t"
    by (simp add: Size_def)
  from T a nd sz show ?thesis by blast
qed

theorem insert_present_overwrites_witness:
  "models ex_right (N E 0 black ''a'' 1 (N E 1 red ''b'' 2 E))
   \<and> bst (N E 0 black ''a'' 1 (N E 1 red ''b'' (2::nat) E))
   \<and> ''b'' \<in> set (keys (N E 0 black ''a'' 1 (N E 1 red ''b'' (2::nat) E)))
   \<and> (\<exists>a nd c l cl v r.
            N E 0 black ''a'' 1 (N E 1 red ''b'' 2 E) = plug c (N l a cl ''b'' v r)
            \<and> a \<in> set (addrs (N E 0 black ''a'' 1 (N E 1 red ''b'' (2::nat) E)))
            \<and> heap ex_right a = Some nd \<and> Key nd = ''b''
            \<and> Insert ex_right ''b'' 7 = put ex_right (Some a) (\<lambda>n. n\<lparr>Value := 7\<rparr>)
            \<and> Insert ex_right ''b'' 7 = Some (ex_right\<lparr>heap := (heap ex_right)(a := Some (nd\<lparr>Value := 7\<rparr>))\<rparr>)
            \<and> models (ex_right\<lparr>heap := (heap ex_right)(a := Some (nd\<lparr>Value := 7\<rparr>))\<rparr>)
                 (plug c (N l a cl ''b'' 7 r))
            \<and> entries (plug c (N l a cl ''b'' 7 r))
                = upsert ''b'' 7 (entries (N E 0 black ''a'' 1 (N E 1 red ''b'' (2::nat) E)))
            \<and> Size (ex_right\<lparr>heap := (heap ex_right)(a := Some (nd\<lparr>Value := 7\<rparr>))\<rparr>) = Size ex_right)"
proof -
  have m: "models ex_right (N E 0 black ''a'' 1 (N E 1 red ''b'' 2 E))"
    by (simp add: models_def ex_right_def)
  have b: "bst (N E 0 black ''a'' 1 (N E 1 red ''b'' (2::nat) E))"
    by (simp add: bst_def keys_def)
  have k: "''b'' \<in> set (keys (N E 0 black ''a'' 1 (N E 1 red ''b'' (2::nat) E)))"
    by (simp add: keys_def)
  from insert_present_overwrites[OF m b k, of 7] m b k show ?thesis by blast
qed

text \<open>
  Claim C5. Deleting a key that the tree does not hold returns \<open>False\<close> and leaves the
  whole store as it was: the nodes with their colours and links, the root pointer and the
  element count.
\<close>

theorem delete_absent_noop:
  assumes "models t T" and "bst T" and "key \<notin> set (keys T)"
  shows "Delete t key = Some (False, t)"
proof -
  from descend_present_iff[OF assms(2), of key] assms(3)
  have "snd (descend key Top T) = E" by simp
  with Search_descend[OF assms(1), of key] have "Search t key = Some None" by simp
  then show ?thesis by (simp add: Delete_def)
qed

theorem delete_absent_noop_witness:
  "models ex_right (N E 0 black ''a'' 1 (N E 1 red ''b'' 2 E))
   \<and> bst (N E 0 black ''a'' 1 (N E 1 red ''b'' (2::nat) E))
   \<and> ''c'' \<notin> set (keys (N E 0 black ''a'' 1 (N E 1 red ''b'' (2::nat) E)))
   \<and> Delete ex_right ''c'' = Some (False, ex_right)"
proof -
  have m: "models ex_right (N E 0 black ''a'' 1 (N E 1 red ''b'' 2 E))"
    by (simp add: models_def ex_right_def)
  have b: "bst (N E 0 black ''a'' 1 (N E 1 red ''b'' (2::nat) E))"
    by (simp add: bst_def keys_def)
  have k: "''c'' \<notin> set (keys (N E 0 black ''a'' 1 (N E 1 red ''b'' (2::nat) E)))"
    by (simp add: keys_def)
  from delete_absent_noop[OF m b k] m b k show ?thesis by blast
qed


section \<open>The structural part of Delete\<close>


lemma delete_switch_alt:
  "delete_switch t node =
     do { originalColor \<leftarrow> get t node Color;
          nl \<leftarrow> get t node Left;
          if nl = None
          then do {
            x \<leftarrow> get t node Right;
            replacementParent \<leftarrow> get t node Parent;
            nr \<leftarrow> get t node Right;
            t \<leftarrow> transplant t node nr;
            Some (originalColor, x, replacementParent, t) }
          else do {
            nr \<leftarrow> get t node Right;
            if nr = None
            then do {
              x \<leftarrow> get t node Left;
              replacementParent \<leftarrow> get t node Parent;
              nl \<leftarrow> get t node Left;
              t \<leftarrow> transplant t node nl;
              Some (originalColor, x, replacementParent, t) }
            else do {
              nr \<leftarrow> get t node Right;
              successor \<leftarrow> minimum t nr;
              originalColor \<leftarrow> get t successor Color;
              x \<leftarrow> get t successor Right;
              sp \<leftarrow> get t successor Parent;
              (replacementParent, t) \<leftarrow>
                 (if sp = node
                  then do { t \<leftarrow> (if x \<noteq> None then put t x (\<lambda>n. n\<lparr>Parent := successor\<rparr>)
                                  else Some t);
                            Some (successor, t) }
                  else do { replacementParent \<leftarrow> get t successor Parent;
                            sr \<leftarrow> get t successor Right;
                            t \<leftarrow> transplant t successor sr;
                            t \<leftarrow> adopt_right t node successor;
                            Some (replacementParent, t) });
              t \<leftarrow> take_over t node successor;
              Some (originalColor, x, replacementParent, t) } } }"
  unfolding delete_switch_def adopt_right_def take_over_def by (simp cong: if_cong)

lemma transplant_right:
  assumes "models t (plug c (N l u cl k v r))"
  shows "\<exists>t'. transplant t (Some u) (ptr r) = Some t' \<and> models t' (plug c r)
            \<and> heap t' u = heap t u \<and> fresh t' = fresh t \<and> size_of t' = size_of t"
proof (cases c)
  case Top
  with assms show ?thesis
    by (cases r) (simp_all add: models_def transplant_def heap_ops Int_Un_distrib)
next
  case InL
  with assms show ?thesis
    by (cases r) (simp_all add: models_plug transplant_def heap_ops Int_Un_distrib)
next
  case InR
  with assms show ?thesis
    by (cases r) (simp_all add: models_plug transplant_def heap_ops Int_Un_distrib)
qed

lemma transplant_left:
  assumes "models t (plug c (N l u cl k v r))"
  shows "\<exists>t'. transplant t (Some u) (ptr l) = Some t' \<and> models t' (plug c l)
            \<and> heap t' u = heap t u \<and> fresh t' = fresh t \<and> size_of t' = size_of t"
proof (cases c)
  case Top
  with assms show ?thesis
    by (cases l) (simp_all add: models_def transplant_def heap_ops Int_Un_distrib)
next
  case InL
  with assms show ?thesis
    by (cases l) (simp_all add: models_plug transplant_def heap_ops Int_Un_distrib)
next
  case InR
  with assms show ?thesis
    by (cases l) (simp_all add: models_plug transplant_def heap_ops Int_Un_distrib)
qed


lemma plug_cplug: "plug (cplug c cs) T = plug c (plug cs T)"
  by (induction cs arbitrary: T) auto

lemma cptr_cplug: "cptr (cplug c cs) = (if cs = Top then cptr c else cptr cs)"
  by (cases cs) auto

lemma cplug_cplug: "cplug c (cplug c1 cs) = cplug (cplug c c1) cs"
  by (induction cs) auto

lemma plug_ne: "c \<noteq> Top \<Longrightarrow> plug c T \<noteq> E"
  by (cases c) (auto simp: plug_not_E)

lemma leftmost_plug: "leftmost c W = (cm, M) \<Longrightarrow> plug cm M = plug c W"
  by (induction W arbitrary: c) (auto split: if_splits)

lemma leftmost_shape:
  "W \<noteq> E \<Longrightarrow> leftmost c W = (cm, M) \<Longrightarrow> \<exists>s sc sk sv sr. M = N E s sc sk sv sr"
  by (induction W arbitrary: c) (auto split: if_splits)

lemma leftmost_rel: "leftmost c W = (cplug c (fst (leftmost Top W)), snd (leftmost Top W))"
proof (induction W arbitrary: c)
  case E
  show ?case by simp
next
  case (N l a cl k v r)
  show ?case
  proof (cases "l = E")
    case True
    then show ?thesis by simp
  next
    case False
    have "leftmost c (N l a cl k v r) = leftmost (InL c a cl k v r) l" using False by simp
    also have "\<dots> = (cplug (InL c a cl k v r) (fst (leftmost Top l)), snd (leftmost Top l))"
      by (rule N.IH(1))
    finally have 1: "leftmost c (N l a cl k v r)
        = (cplug (InL c a cl k v r) (fst (leftmost Top l)), snd (leftmost Top l))" .
    have "leftmost Top (N l a cl k v r) = leftmost (InL Top a cl k v r) l" using False by simp
    also have "\<dots> = (cplug (InL Top a cl k v r) (fst (leftmost Top l)), snd (leftmost Top l))"
      by (rule N.IH(1))
    finally have 2: "leftmost Top (N l a cl k v r)
        = (cplug (InL Top a cl k v r) (fst (leftmost Top l)), snd (leftmost Top l))" .
    have "cplug c (cplug (InL Top a cl k v r) (fst (leftmost Top l)))
        = cplug (InL c a cl k v r) (fst (leftmost Top l))"
      by (simp add: cplug_cplug)
    with 1 2 show ?thesis by simp
  qed
qed

lemma cleft_leftmost: "cleft (fst (leftmost c W)) = cleft c"
  by (induction W arbitrary: c) auto

lemma minimum_leftmost:
  "models t (plug c W) \<Longrightarrow> W \<noteq> E \<Longrightarrow> minimum t (ptr W) = Some (ptr (snd (leftmost c W)))"
proof (induction W arbitrary: c)
  case E
  then show ?case by simp
next
  case (N l a cl k v r)
  note rd = read_focus[OF N.prems(1)]
  show ?case
  proof (cases "l = E")
    case True
    then show ?thesis by (subst minimum.simps) (simp add: exec rd)
  next
    case False
    from N.prems have ml: "models t (plug (InL c a cl k v r) l)" by simp
    from False have "ptr l \<noteq> None" by (cases l) auto
    with N.IH(1)[OF ml False] False show ?thesis
      by (subst minimum.simps) (simp add: exec rd)
  qed
qed

lemma take_over_correct:
  assumes h: "half_moved t c l a cl s sk sv R" and l: "l \<noteq> E"
  shows "\<exists>t'. take_over t (Some a) (Some s) = Some t' \<and> models t' (plug c (N l s cl sk sv R))
            \<and> fresh t' = fresh t \<and> size_of t' = size_of t"
proof -
  from l obtain ll la lc lk lv lr where L: "l = N ll la lc lk lv lr" by (cases l) auto
  show ?thesis
  proof (cases c)
    case Top
    with h L show ?thesis
      by (clarsimp simp: half_moved_def models_def take_over_def transplant_def heap_ops Int_Un_distrib Int_Un_distrib2 Int_commute)
  next
    case InL
    with h L show ?thesis
      by (clarsimp simp: half_moved_def models_plug take_over_def transplant_def heap_ops Int_Un_distrib Int_Un_distrib2 Int_commute)
  next
    case InR
    with h L show ?thesis
      by (clarsimp simp: half_moved_def models_plug take_over_def transplant_def heap_ops Int_Un_distrib Int_Un_distrib2 Int_commute)
  qed
qed

lemma adopt_right_correct:
  assumes m: "models t (plug c (N l a cl k v R))" and R: "R \<noteq> E"
    and s: "heap t s = Some \<lparr>Key = sk, Value = sv, Color = sc, Parent = sp, Left = sl, Right = sr\<rparr>"
    and d: "s \<notin> set (caddrs c)" "s \<notin> set (addrs l)" "s \<notin> set (addrs R)" "s \<noteq> a" "s < fresh t"
  shows "\<exists>t'. adopt_right t (Some a) (Some s) = Some t' \<and> half_moved t' c l a cl s sk sv R
            \<and> fresh t' = fresh t \<and> size_of t' = size_of t"
proof -
  from R obtain rl ra rc rk rv rr where RR: "R = N rl ra rc rk rv rr" by (cases R) auto
  from m s d RR show ?thesis
    by (clarsimp simp: half_moved_def models_plug adopt_right_def heap_ops Int_Un_distrib Int_Un_distrib2 Int_commute)
qed

lemma direct_child:
  assumes m: "models t (plug c (N l a cl k v (N E s sc sk sv sr)))"
  shows "\<exists>t'. (if ptr sr \<noteq> None then put t (ptr sr) (\<lambda>n. n\<lparr>Parent := Some s\<rparr>) else Some t) = Some t'
            \<and> half_moved t' c l a cl s sk sv sr
            \<and> fresh t' = fresh t \<and> size_of t' = size_of t"
  using m by (cases sr) (clarsimp simp: half_moved_def models_plug heap_ops Int_Un_distrib Int_Un_distrib2 Int_commute)+




lemma caddrs_cplug: "caddrs (cplug c cs) = caddrs cs @ caddrs c"
  by (induction cs) auto

lemma cptr_in: "cptr c = Some q \<Longrightarrow> q \<in> set (caddrs c)"
  by (cases c) auto

lemma dsw_noleft:
  assumes m: "models t (plug c (N E a cl k v r))"
  shows "\<exists>t'. delete_switch t (Some a) = Some (cl, ptr r, cptr c, t') \<and> models t' (plug c r)
            \<and> fresh t' = fresh t \<and> size_of t' = size_of t"
proof -
  note rd = read_focus[OF m]
  from transplant_right[OF m] obtain t' where
    tr: "transplant t (Some a) (ptr r) = Some t'" and m': "models t' (plug c r)"
    and f: "fresh t' = fresh t" "size_of t' = size_of t" by blast
  have "delete_switch t (Some a) = Some (cl, ptr r, cptr c, t')"
    by (simp add: delete_switch_alt exec rd tr)
  with m' f show ?thesis by blast
qed

lemma dsw_noright:
  assumes m: "models t (plug c (N l a cl k v E))" and l: "l \<noteq> E"
  shows "\<exists>t'. delete_switch t (Some a) = Some (cl, ptr l, cptr c, t') \<and> models t' (plug c l)
            \<and> fresh t' = fresh t \<and> size_of t' = size_of t"
proof -
  note rd = read_focus[OF m]
  from l have pl: "ptr l \<noteq> None" by (cases l) auto
  from transplant_left[OF m] obtain t' where
    tr: "transplant t (Some a) (ptr l) = Some t'" and m': "models t' (plug c l)"
    and f: "fresh t' = fresh t" "size_of t' = size_of t" by blast
  have "delete_switch t (Some a) = Some (cl, ptr l, cptr c, t')"
    by (simp add: delete_switch_alt exec rd tr pl)
  with m' f show ?thesis by blast
qed

lemma dsw_two:
  assumes m: "models t (plug c (N l a cl k v r))" and l: "l \<noteq> E" and r: "r \<noteq> E"
    and lm: "leftmost Top r = (cs, N E s sc sk sv sr)"
  shows "\<exists>t'. delete_switch t (Some a)
                = Some (sc, ptr sr, cptr (cplug (InR l s cl sk sv c) cs), t')
            \<and> models t' (plug c (N l s cl sk sv (plug cs sr)))
            \<and> fresh t' = fresh t \<and> size_of t' = size_of t"
proof -
  let ?M = "N E s sc sk sv sr"
  let ?C = "cplug (InR l a cl k v c) cs"
  note rd = read_focus[OF m]
  from l have pl: "ptr l \<noteq> None" by (cases l) auto
  from r have pr: "ptr r \<noteq> None" by (cases r) auto
  from leftmost_plug[OF lm] have rM: "r = plug cs ?M" by simp
  from m have mr: "models t (plug (InR l a cl k v c) r)" by simp
  have lmC: "leftmost (InR l a cl k v c) r = (?C, ?M)"
    using leftmost_rel[of "InR l a cl k v c" r] lm by simp
  from minimum_leftmost[OF mr r] lmC
  have mn: "minimum t (ptr r) = Some (Some s)" by simp
  from m rM have ms: "models t (plug ?C ?M)" by (simp add: plug_cplug)
  note rds = read_focus[OF ms]
  from ms have dist: "s \<notin> set (caddrs cs)" "s \<noteq> a" "s \<notin> set (addrs l)" "s \<notin> set (caddrs c)"
      "s \<notin> set (addrs sr)" "s < fresh t" "a \<notin> set (caddrs cs)"
    by (auto simp: models_plug caddrs_cplug)
  show ?thesis
  proof (cases "cs = Top")
    case True
    with rM have r': "r = ?M" by simp
    from direct_child[OF m[unfolded r']] obtain t1 where
      s1: "(if ptr sr \<noteq> None then put t (ptr sr) (\<lambda>n. n\<lparr>Parent := Some s\<rparr>) else Some t) = Some t1"
      and h1: "half_moved t1 c l a cl s sk sv sr"
      and f1: "fresh t1 = fresh t" "size_of t1 = size_of t" by blast
    from take_over_correct[OF h1 l] obtain t2 where
      s2: "take_over t1 (Some a) (Some s) = Some t2"
      and m2: "models t2 (plug c (N l s cl sk sv sr))"
      and f2: "fresh t2 = fresh t1" "size_of t2 = size_of t1" by blast
    have "delete_switch t (Some a) = Some (sc, ptr sr, Some s, t2)"
      using True s1
      by (simp add: delete_switch_alt exec rd rds mn s2 cptr_cplug pl pr)
    with m2 f1 f2 True show ?thesis by simp
  next
    case False
    then obtain q where q: "cptr cs = Some q" by (cases cs) auto
    from cptr_in[OF q] dist have qa: "q \<noteq> a" by auto
    from transplant_right[OF ms] obtain t1 where
      s1: "transplant t (Some s) (ptr sr) = Some t1"
      and m1: "models t1 (plug ?C sr)" and hs: "heap t1 s = heap t s"
      and f1: "fresh t1 = fresh t" "size_of t1 = size_of t" by blast
    from m1 have m1': "models t1 (plug c (N l a cl k v (plug cs sr)))"
      by (simp add: plug_cplug)
    have ne: "plug cs sr \<noteq> E" using False by (rule plug_ne)
    have d: "s \<notin> set (caddrs c)" "s \<notin> set (addrs l)" "s \<notin> set (addrs (plug cs sr))"
        "s \<noteq> a" "s < fresh t1"
      using dist f1 by (auto simp: set_addrs_plug)
    from adopt_right_correct[OF m1' ne hs[unfolded rds] d] obtain t2 where
      s2: "adopt_right t1 (Some a) (Some s) = Some t2"
      and h2: "half_moved t2 c l a cl s sk sv (plug cs sr)"
      and f2: "fresh t2 = fresh t1" "size_of t2 = size_of t1" by blast
    from take_over_correct[OF h2 l] obtain t3 where
      s3: "take_over t2 (Some a) (Some s) = Some t3"
      and m3: "models t3 (plug c (N l s cl sk sv (plug cs sr)))"
      and f3: "fresh t3 = fresh t2" "size_of t3 = size_of t2" by blast
    have "delete_switch t (Some a) = Some (sc, ptr sr, Some q, t3)"
      using False qa
      by (simp add: delete_switch_alt exec rd rds mn s1 s2 s3 cptr_cplug q pl pr)
    with m3 f1 f2 f3 False q show ?thesis by (simp add: cptr_cplug)
  qed
qed


section \<open>Symbolic execution of the delete fixup\<close>


lemma deleteFixup_alt:
  "deleteFixup t x parent =
     do { continue \<leftarrow> (if x \<noteq> root t then do { c \<leftarrow> colorOf t x; Some (c = black) }
                        else Some False);
          if continue
          then do {
            pl \<leftarrow> leftOf t parent;
            if x = pl
            then do {
              sibling \<leftarrow> rightOf t parent;
              cs \<leftarrow> colorOf t sibling;
              (t, sibling) \<leftarrow> (if cs = red
                                 then do { t \<leftarrow> put t sibling (\<lambda>n. n\<lparr>Color := black\<rparr>);
                                           t \<leftarrow> put t parent (\<lambda>n. n\<lparr>Color := red\<rparr>);
                                           t \<leftarrow> rotateLeft t parent;
                                           sibling \<leftarrow> rightOf t parent;
                                           Some (t, sibling) }
                                 else Some (t, sibling));
              dfix_left t parent sibling }
            else do {
              sibling \<leftarrow> leftOf t parent;
              cs \<leftarrow> colorOf t sibling;
              (t, sibling) \<leftarrow> (if cs = red
                                 then do { t \<leftarrow> put t sibling (\<lambda>n. n\<lparr>Color := black\<rparr>);
                                           t \<leftarrow> put t parent (\<lambda>n. n\<lparr>Color := red\<rparr>);
                                           t \<leftarrow> rotateRight t parent;
                                           sibling \<leftarrow> leftOf t parent;
                                           Some (t, sibling) }
                                 else Some (t, sibling));
              dfix_right t parent sibling } }
          else (if x \<noteq> None then put t x (\<lambda>n. n\<lparr>Color := black\<rparr>) else Some t) }"
  apply (subst deleteFixup.simps)
  unfolding dfix_left_def dfix_right_def
  apply (rule refl)
  done


lemma leftOf_Some: "leftOf t (Some a) = map_option Left (heap t a)"
  by (simp add: leftOf_def get_def load_def)

lemma rightOf_Some: "rightOf t (Some a) = map_option Right (heap t a)"
  by (simp add: rightOf_def get_def load_def)

lemmas exec2 = exec leftOf_Some rightOf_Some

lemmas paint_LL = paint_L[of _ "InL c b bc bk bv br", unfolded plug.simps cptr.simps] for c b bc bk bv br
lemmas paint_LR = paint_R[of _ "InL c b bc bk bv br", unfolded plug.simps cptr.simps] for c b bc bk bv br
lemmas paint_RL = paint_L[of _ "InR bl b bc bk bv c", unfolded plug.simps cptr.simps] for c b bc bk bv bl
lemmas paint_RR = paint_R[of _ "InR bl b bc bk bv c", unfolded plug.simps cptr.simps] for c b bc bk bv bl

lemmas colorOf_LL = colorOf_L[of _ "InL c b bc bk bv br", unfolded plug.simps cptr.simps] for c b bc bk bv br
lemmas colorOf_LR = colorOf_R[of _ "InL c b bc bk bv br", unfolded plug.simps cptr.simps] for c b bc bk bv br
lemmas colorOf_RL = colorOf_L[of _ "InR bl b bc bk bv c", unfolded plug.simps cptr.simps] for c b bc bk bv bl
lemmas colorOf_RR = colorOf_R[of _ "InR bl b bc bk bv c", unfolded plug.simps cptr.simps] for c b bc bk bv bl

lemma root_neq_child:
  assumes m: "models t (plug c (N l b bc bk bv r))"
  shows "root t \<noteq> ptr l" "root t \<noteq> ptr r"
proof -
  from m have r: "root t = croot c (Some b)" by (simp add: models_plug)
  have "croot c (Some b) \<noteq> None" by (induction c arbitrary: b) auto
  with r have nn: "root t \<noteq> None" by simp
  show "root t \<noteq> ptr l" using nn root_neq[OF m] by (cases l) auto
  show "root t \<noteq> ptr r" using nn root_neq[OF m] by (cases r) auto
qed

lemma dfix_exit:
  assumes m: "models t (plug c X)" and c: "c = Top \<or> col X = red"
  shows "deleteFixup t (ptr X) par
           = (if ptr X \<noteq> None then put t (ptr X) (\<lambda>n. n\<lparr>Color := black\<rparr>) else Some t)"
proof (cases "c = Top")
  case True
  with m have "root t = ptr X" by (simp add: models_def)
  then show ?thesis by (subst deleteFixup.simps) simp
next
  case False
  with c have "col X = red" by simp
  then obtain l a k v r where X: "X = N l a red k v r" by (cases X) auto
  with colorOf_focus[OF m] have cr: "colorOf t (Some a) = Some red" by simp
  show ?thesis unfolding X by (subst deleteFixup.simps) (simp add: cr)
qed

lemma dfix_exit_models:
  assumes m: "models t (plug c X)"
  shows "\<exists>t'. (if ptr X \<noteq> None then put t (ptr X) (\<lambda>n. n\<lparr>Color := black\<rparr>) else Some t) = Some t'
            \<and> models t' (plug c (blacken X))
            \<and> fresh t' = fresh t \<and> size_of t' = size_of t"
proof (cases X)
  case E
  with m show ?thesis by simp
next
  case (N l a cl k v r)
  with paint_focus[OF m[unfolded N], of black] show ?thesis by auto
qed

lemma dfix_L_pre:
  assumes m: "models t (plug c (N X p pc kp vp (N Sl s red ks vs Sr)))" and x: "col X = black"
  shows "\<exists>t'. deleteFixup t (ptr X) (Some p) = dfix_left t' (Some p) (ptr Sl)
            \<and> models t' (plug c (N (N X p red kp vp Sl) s black ks vs Sr))
            \<and> fresh t' = fresh t \<and> size_of t' = size_of t"
proof -
  note rd = read_focus[OF m] read_R[OF m] colorOf_L[OF m]
  note ne = root_neq_child(1)[OF m]
  from paint_R[OF m, of black] obtain t1 where
    s1: "put t (Some s) (\<lambda>n. n\<lparr>Color := black\<rparr>) = Some t1" and
    m1: "models t1 (plug c (N X p pc kp vp (N Sl s black ks vs Sr)))" and
    f1: "fresh t1 = fresh t" "size_of t1 = size_of t" by blast
  from paint_focus[OF m1, of red] obtain t2 where
    s2: "put t1 (Some p) (\<lambda>n. n\<lparr>Color := red\<rparr>) = Some t2" and
    m2: "models t2 (plug c (N X p red kp vp (N Sl s black ks vs Sr)))" and
    f2: "fresh t2 = fresh t1" "size_of t2 = size_of t1" by blast
  from rotateLeft_focus[OF m2] obtain t3 where
    s3: "rotateLeft t2 (Some p) = Some t3" and
    m3: "models t3 (plug c (N (N X p red kp vp Sl) s black ks vs Sr))" and
    f3: "fresh t3 = fresh t2" "size_of t3 = size_of t2" by blast
  note rd3 = read_L[OF m3]
  have "deleteFixup t (ptr X) (Some p) = dfix_left t3 (Some p) (ptr Sl)"
    by (subst deleteFixup_alt) (simp add: exec2 rd rd3 s1 s2 s3 ne ne[symmetric] x)
  with m3 f1 f2 f3 show ?thesis by auto
qed

lemma dfix_L_nopre:
  assumes m: "models t (plug c (N X p pc kp vp S))" and x: "col X = black" and s: "col S = black"
  shows "deleteFixup t (ptr X) (Some p) = dfix_left t (Some p) (ptr S)"
proof -
  note rd = read_focus[OF m] colorOf_L[OF m] colorOf_R[OF m]
  note ne = root_neq_child(1)[OF m]
  show ?thesis
    by (subst deleteFixup_alt) (simp add: exec2 rd ne ne[symmetric] x s)
qed

lemma dfl_both:
  assumes m: "models t (plug c (N X p pc kp vp (N SA s sc ks vs SB)))"
    and a: "col SA = black" and b: "col SB = black"
  shows "\<exists>t'. dfix_left t (Some p) (Some s) = deleteFixup t' (Some p) (cptr c)
            \<and> models t' (plug c (N X p pc kp vp (N SA s red ks vs SB)))
            \<and> fresh t' = fresh t \<and> size_of t' = size_of t"
proof -
  note rd = read_focus[OF m] read_R[OF m] colorOf_RL[OF m] colorOf_RR[OF m]
  from paint_R[OF m, of red] obtain t1 where
    s1: "put t (Some s) (\<lambda>n. n\<lparr>Color := red\<rparr>) = Some t1" and
    m1: "models t1 (plug c (N X p pc kp vp (N SA s red ks vs SB)))" and
    f1: "fresh t1 = fresh t" "size_of t1 = size_of t" by blast
  note rd1 = read_focus[OF m1]
  have "dfix_left t (Some p) (Some s) = deleteFixup t1 (Some p) (cptr c)"
    by (simp add: dfix_left_def exec2 rd rd1 s1 a b)
  with m1 f1 show ?thesis by auto
qed

lemma dfl_far_red:
  assumes m: "models t (plug c (N X p pc kp vp (N SA s sc ks vs (N SBl sb red kb vb SBr))))"
  shows "\<exists>t'. dfix_left t (Some p) (Some s) = deleteFixup t' (root t') None
            \<and> models t' (plug c (N (N X p black kp vp SA) s pc ks vs (N SBl sb black kb vb SBr)))
            \<and> fresh t' = fresh t \<and> size_of t' = size_of t"
proof -
  note rd = read_focus[OF m] read_R[OF m] read_RR[OF m] colorOf_RL[OF m]
  from paint_R[OF m, of pc] obtain t1 where
    s1: "put t (Some s) (\<lambda>n. n\<lparr>Color := pc\<rparr>) = Some t1" and
    m1: "models t1 (plug c (N X p pc kp vp (N SA s pc ks vs (N SBl sb red kb vb SBr))))" and
    f1: "fresh t1 = fresh t" "size_of t1 = size_of t" by blast
  from paint_focus[OF m1, of black] obtain t2 where
    s2: "put t1 (Some p) (\<lambda>n. n\<lparr>Color := black\<rparr>) = Some t2" and
    m2: "models t2 (plug c (N X p black kp vp (N SA s pc ks vs (N SBl sb red kb vb SBr))))" and
    f2: "fresh t2 = fresh t1" "size_of t2 = size_of t1" by blast
  note rd2 = read_R[OF m2]
  from paint_RR[OF m2, of black] obtain t3 where
    s3: "put t2 (Some sb) (\<lambda>n. n\<lparr>Color := black\<rparr>) = Some t3" and
    m3: "models t3 (plug c (N X p black kp vp (N SA s pc ks vs (N SBl sb black kb vb SBr))))" and
    f3: "fresh t3 = fresh t2" "size_of t3 = size_of t2" by blast
  from rotateLeft_focus[OF m3] obtain t4 where
    s4: "rotateLeft t3 (Some p) = Some t4" and
    m4: "models t4 (plug c (N (N X p black kp vp SA) s pc ks vs (N SBl sb black kb vb SBr)))" and
    f4: "fresh t4 = fresh t3" "size_of t4 = size_of t3" by blast
  have "dfix_left t (Some p) (Some s) = deleteFixup t4 (root t4) None"
    by (simp add: dfix_left_def exec2 rd rd2 s1 s2 s3 s4)
  with m4 f1 f2 f3 f4 show ?thesis by auto
qed

lemma dfl_near_red:
  assumes m: "models t (plug c (N X p pc kp vp (N (N SAl sa red ka va SAr) s sc ks vs SB)))"
    and b: "col SB = black"
  shows "\<exists>t'. dfix_left t (Some p) (Some s) = deleteFixup t' (root t') None
            \<and> models t' (plug c (N (N X p black kp vp SAl) sa pc ka va (N SAr s black ks vs SB)))
            \<and> fresh t' = fresh t \<and> size_of t' = size_of t"
proof -
  note rd = read_focus[OF m] read_R[OF m] read_RL[OF m] colorOf_RR[OF m]
  from paint_RL[OF m, of black] obtain t1 where
    s1: "put t (Some sa) (\<lambda>n. n\<lparr>Color := black\<rparr>) = Some t1" and
    m1: "models t1 (plug c (N X p pc kp vp (N (N SAl sa black ka va SAr) s sc ks vs SB)))" and
    f1: "fresh t1 = fresh t" "size_of t1 = size_of t" by blast
  from paint_R[OF m1, of red] obtain t2 where
    s2: "put t1 (Some s) (\<lambda>n. n\<lparr>Color := red\<rparr>) = Some t2" and
    m2: "models t2 (plug c (N X p pc kp vp (N (N SAl sa black ka va SAr) s red ks vs SB)))" and
    f2: "fresh t2 = fresh t1" "size_of t2 = size_of t1" by blast
  from rotateRight_R[OF m2] obtain t3 where
    s3: "rotateRight t2 (Some s) = Some t3" and
    m3: "models t3 (plug c (N X p pc kp vp (N SAl sa black ka va (N SAr s red ks vs SB))))" and
    f3: "fresh t3 = fresh t2" "size_of t3 = size_of t2" by blast
  note rd3 = read_focus[OF m3]
  from paint_R[OF m3, of pc] obtain t4 where
    s4: "put t3 (Some sa) (\<lambda>n. n\<lparr>Color := pc\<rparr>) = Some t4" and
    m4: "models t4 (plug c (N X p pc kp vp (N SAl sa pc ka va (N SAr s red ks vs SB))))" and
    f4: "fresh t4 = fresh t3" "size_of t4 = size_of t3" by blast
  from paint_focus[OF m4, of black] obtain t5 where
    s5: "put t4 (Some p) (\<lambda>n. n\<lparr>Color := black\<rparr>) = Some t5" and
    m5: "models t5 (plug c (N X p black kp vp (N SAl sa pc ka va (N SAr s red ks vs SB))))" and
    f5: "fresh t5 = fresh t4" "size_of t5 = size_of t4" by blast
  note rd5 = read_R[OF m5]
  from paint_RR[OF m5, of black] obtain t6 where
    s6: "put t5 (Some s) (\<lambda>n. n\<lparr>Color := black\<rparr>) = Some t6" and
    m6: "models t6 (plug c (N X p black kp vp (N SAl sa pc ka va (N SAr s black ks vs SB))))" and
    f6: "fresh t6 = fresh t5" "size_of t6 = size_of t5" by blast
  from rotateLeft_focus[OF m6] obtain t7 where
    s7: "rotateLeft t6 (Some p) = Some t7" and
    m7: "models t7 (plug c (N (N X p black kp vp SAl) sa pc ka va (N SAr s black ks vs SB)))" and
    f7: "fresh t7 = fresh t6" "size_of t7 = size_of t6" by blast
  have "dfix_left t (Some p) (Some s) = deleteFixup t7 (root t7) None"
    by (simp add: dfix_left_def exec2 rd rd3 rd5 s1 s2 s3 s4 s5 s6 s7 b)
  with m7 f1 f2 f3 f4 f5 f6 f7 show ?thesis by auto
qed


lemma dfix_R_pre:
  assumes m: "models t (plug c (N (N Sl s red ks vs Sr) p pc kp vp X))" and x: "col X = black"
  shows "\<exists>t'. deleteFixup t (ptr X) (Some p) = dfix_right t' (Some p) (ptr Sr)
            \<and> models t' (plug c (N Sl s black ks vs (N Sr p red kp vp X)))
            \<and> fresh t' = fresh t \<and> size_of t' = size_of t"
proof -
  note rd = read_focus[OF m] read_L[OF m] colorOf_R[OF m]
  note ne = root_neq_child(2)[OF m]
  have nx: "ptr X \<noteq> Some s" using m by (auto simp: models_plug)
  from paint_L[OF m, of black] obtain t1 where
    s1: "put t (Some s) (\<lambda>n. n\<lparr>Color := black\<rparr>) = Some t1" and
    m1: "models t1 (plug c (N (N Sl s black ks vs Sr) p pc kp vp X))" and
    f1: "fresh t1 = fresh t" "size_of t1 = size_of t" by blast
  from paint_focus[OF m1, of red] obtain t2 where
    s2: "put t1 (Some p) (\<lambda>n. n\<lparr>Color := red\<rparr>) = Some t2" and
    m2: "models t2 (plug c (N (N Sl s black ks vs Sr) p red kp vp X))" and
    f2: "fresh t2 = fresh t1" "size_of t2 = size_of t1" by blast
  from rotateRight_focus[OF m2] obtain t3 where
    s3: "rotateRight t2 (Some p) = Some t3" and
    m3: "models t3 (plug c (N Sl s black ks vs (N Sr p red kp vp X)))" and
    f3: "fresh t3 = fresh t2" "size_of t3 = size_of t2" by blast
  note rd3 = read_R[OF m3]
  have "deleteFixup t (ptr X) (Some p) = dfix_right t3 (Some p) (ptr Sr)"
    by (subst deleteFixup_alt) (simp add: exec2 rd rd3 s1 s2 s3 ne ne[symmetric] nx x)
  with m3 f1 f2 f3 show ?thesis by auto
qed

lemma dfix_R_nopre:
  assumes m: "models t (plug c (N S p pc kp vp X))" and x: "col X = black" and s: "col S = black"
    and ne: "S \<noteq> E"
  shows "deleteFixup t (ptr X) (Some p) = dfix_right t (Some p) (ptr S)"
proof -
  note rd = read_focus[OF m] colorOf_L[OF m] colorOf_R[OF m]
  note nr = root_neq_child(2)[OF m]
  from ne obtain sl sa sc sk sv sr where S: "S = N sl sa sc sk sv sr" by (cases S) auto
  have nx: "ptr X \<noteq> ptr S" using m unfolding S by (auto simp: models_plug)
  show ?thesis
    by (subst deleteFixup_alt) (simp add: exec2 rd nr nr[symmetric] nx x s)
qed

lemma dfr_both:
  assumes m: "models t (plug c (N (N SA s sc ks vs SB) p pc kp vp X))"
    and a: "col SA = black" and b: "col SB = black"
  shows "\<exists>t'. dfix_right t (Some p) (Some s) = deleteFixup t' (Some p) (cptr c)
            \<and> models t' (plug c (N (N SA s red ks vs SB) p pc kp vp X))
            \<and> fresh t' = fresh t \<and> size_of t' = size_of t"
proof -
  note rd = read_focus[OF m] read_L[OF m] colorOf_LL[OF m] colorOf_LR[OF m]
  from paint_L[OF m, of red] obtain t1 where
    s1: "put t (Some s) (\<lambda>n. n\<lparr>Color := red\<rparr>) = Some t1" and
    m1: "models t1 (plug c (N (N SA s red ks vs SB) p pc kp vp X))" and
    f1: "fresh t1 = fresh t" "size_of t1 = size_of t" by blast
  note rd1 = read_focus[OF m1]
  have "dfix_right t (Some p) (Some s) = deleteFixup t1 (Some p) (cptr c)"
    by (simp add: dfix_right_def exec2 rd rd1 s1 a b)
  with m1 f1 show ?thesis by auto
qed

lemma dfr_far_red:
  assumes m: "models t (plug c (N (N (N SAl sa red ka va SAr) s sc ks vs SB) p pc kp vp X))"
  shows "\<exists>t'. dfix_right t (Some p) (Some s) = deleteFixup t' (root t') None
            \<and> models t' (plug c (N (N SAl sa black ka va SAr) s pc ks vs (N SB p black kp vp X)))
            \<and> fresh t' = fresh t \<and> size_of t' = size_of t"
proof -
  note rd = read_focus[OF m] read_L[OF m] read_LL[OF m] colorOf_LR[OF m]
  from paint_L[OF m, of pc] obtain t1 where
    s1: "put t (Some s) (\<lambda>n. n\<lparr>Color := pc\<rparr>) = Some t1" and
    m1: "models t1 (plug c (N (N (N SAl sa red ka va SAr) s pc ks vs SB) p pc kp vp X))" and
    f1: "fresh t1 = fresh t" "size_of t1 = size_of t" by blast
  from paint_focus[OF m1, of black] obtain t2 where
    s2: "put t1 (Some p) (\<lambda>n. n\<lparr>Color := black\<rparr>) = Some t2" and
    m2: "models t2 (plug c (N (N (N SAl sa red ka va SAr) s pc ks vs SB) p black kp vp X))" and
    f2: "fresh t2 = fresh t1" "size_of t2 = size_of t1" by blast
  note rd2 = read_L[OF m2]
  from paint_LL[OF m2, of black] obtain t3 where
    s3: "put t2 (Some sa) (\<lambda>n. n\<lparr>Color := black\<rparr>) = Some t3" and
    m3: "models t3 (plug c (N (N (N SAl sa black ka va SAr) s pc ks vs SB) p black kp vp X))" and
    f3: "fresh t3 = fresh t2" "size_of t3 = size_of t2" by blast
  from rotateRight_focus[OF m3] obtain t4 where
    s4: "rotateRight t3 (Some p) = Some t4" and
    m4: "models t4 (plug c (N (N SAl sa black ka va SAr) s pc ks vs (N SB p black kp vp X)))" and
    f4: "fresh t4 = fresh t3" "size_of t4 = size_of t3" by blast
  have "dfix_right t (Some p) (Some s) = deleteFixup t4 (root t4) None"
    by (simp add: dfix_right_def exec2 rd rd2 s1 s2 s3 s4)
  with m4 f1 f2 f3 f4 show ?thesis by auto
qed

lemma dfr_near_red:
  assumes m: "models t (plug c (N (N SA s sc ks vs (N SBl sb red kb vb SBr)) p pc kp vp X))"
    and a: "col SA = black"
  shows "\<exists>t'. dfix_right t (Some p) (Some s) = deleteFixup t' (root t') None
            \<and> models t' (plug c (N (N SA s black ks vs SBl) sb pc kb vb (N SBr p black kp vp X)))
            \<and> fresh t' = fresh t \<and> size_of t' = size_of t"
proof -
  note rd = read_focus[OF m] read_L[OF m] read_LR[OF m] colorOf_LL[OF m]
  from paint_LR[OF m, of black] obtain t1 where
    s1: "put t (Some sb) (\<lambda>n. n\<lparr>Color := black\<rparr>) = Some t1" and
    m1: "models t1 (plug c (N (N SA s sc ks vs (N SBl sb black kb vb SBr)) p pc kp vp X))" and
    f1: "fresh t1 = fresh t" "size_of t1 = size_of t" by blast
  from paint_L[OF m1, of red] obtain t2 where
    s2: "put t1 (Some s) (\<lambda>n. n\<lparr>Color := red\<rparr>) = Some t2" and
    m2: "models t2 (plug c (N (N SA s red ks vs (N SBl sb black kb vb SBr)) p pc kp vp X))" and
    f2: "fresh t2 = fresh t1" "size_of t2 = size_of t1" by blast
  from rotateLeft_L[OF m2] obtain t3 where
    s3: "rotateLeft t2 (Some s) = Some t3" and
    m3: "models t3 (plug c (N (N (N SA s red ks vs SBl) sb black kb vb SBr) p pc kp vp X))" and
    f3: "fresh t3 = fresh t2" "size_of t3 = size_of t2" by blast
  note rd3 = read_focus[OF m3]
  from paint_L[OF m3, of pc] obtain t4 where
    s4: "put t3 (Some sb) (\<lambda>n. n\<lparr>Color := pc\<rparr>) = Some t4" and
    m4: "models t4 (plug c (N (N (N SA s red ks vs SBl) sb pc kb vb SBr) p pc kp vp X))" and
    f4: "fresh t4 = fresh t3" "size_of t4 = size_of t3" by blast
  from paint_focus[OF m4, of black] obtain t5 where
    s5: "put t4 (Some p) (\<lambda>n. n\<lparr>Color := black\<rparr>) = Some t5" and
    m5: "models t5 (plug c (N (N (N SA s red ks vs SBl) sb pc kb vb SBr) p black kp vp X))" and
    f5: "fresh t5 = fresh t4" "size_of t5 = size_of t4" by blast
  note rd5 = read_L[OF m5]
  from paint_LL[OF m5, of black] obtain t6 where
    s6: "put t5 (Some s) (\<lambda>n. n\<lparr>Color := black\<rparr>) = Some t6" and
    m6: "models t6 (plug c (N (N (N SA s black ks vs SBl) sb pc kb vb SBr) p black kp vp X))" and
    f6: "fresh t6 = fresh t5" "size_of t6 = size_of t5" by blast
  from rotateRight_focus[OF m6] obtain t7 where
    s7: "rotateRight t6 (Some p) = Some t7" and
    m7: "models t7 (plug c (N (N SA s black ks vs SBl) sb pc kb vb (N SBr p black kp vp X)))" and
    f7: "fresh t7 = fresh t6" "size_of t7 = size_of t6" by blast
  have "dfix_right t (Some p) (Some s) = deleteFixup t7 (root t7) None"
    by (simp add: dfix_right_def exec2 rd rd3 rd5 s1 s2 s3 s4 s5 s6 s7 a)
  with m7 f1 f2 f3 f4 f5 f6 f7 show ?thesis by auto
qed

section \<open>Correctness of the delete fixup\<close>


lemma blacken_black: "col X = black \<Longrightarrow> blacken X = X"
  by (cases X) auto

lemma bh_ok_blacken [simp]: "bh_ok (blacken X) = bh_ok X"
  by (cases X) auto

lemma entries_blacken [simp]: "entries (blacken X) = entries X"
  by (cases X) auto

lemma col_blacken [simp]: "col (blacken X) = black"
  by (cases X) auto

lemma no_red_red_blacken: "no_red_red X \<Longrightarrow> no_red_red (blacken X)"
  by (cases X) auto

lemma dfix_done:
  assumes m: "models t T" and rb: "rb_tree T"
  shows "\<exists>t'. deleteFixup t (root t) None = Some t' \<and> models t' T
            \<and> fresh t' = fresh t \<and> size_of t' = size_of t"
proof -
  from m have m': "models t (plug Top T)" by simp
  from m have r: "root t = ptr T" by (simp add: models_def)
  from rb have b: "blacken T = T" by (simp add: rb_tree_def blacken_black)
  from dfix_exit_models[OF m'] obtain t' where
    "(if ptr T \<noteq> None then put t (ptr T) (\<lambda>n. n\<lparr>Color := black\<rparr>) else Some t) = Some t'"
    "models t' (plug Top (blacken T))" "fresh t' = fresh t" "size_of t' = size_of t" by blast
  with dfix_exit[OF m', of None] r b show ?thesis by simp
qed

lemma dfl_finish:
  assumes m: "models t (plug c (N X p pc kp vp (N SA s black ks vs SB)))"
    and rd: "col SA = red \<or> col SB = red"
    and ci: "cinv c (if pc = black then Suc (Suc (bh X)) else Suc (bh X))"
    and pcr: "pc = red \<longrightarrow> ccol c = black \<and> c \<noteq> Top"
    and inv: "bh_ok X" "no_red_red X" "bh SA = bh X" "bh SB = bh X" "bh_ok SA" "bh_ok SB"
      "no_red_red SA" "no_red_red SB"
  shows "\<exists>t' T'. dfix_left t (Some p) (Some s) = Some t' \<and> models t' T' \<and> rb_tree T'
            \<and> entries T' = entries (plug c (N X p pc kp vp (N SA s black ks vs SB)))
            \<and> fresh t' = fresh t \<and> size_of t' = size_of t"
proof (cases "col SB")
  case red
  then obtain SBl sb kb vb SBr where SB: "SB = N SBl sb red kb vb SBr" by (cases SB) auto
  from dfl_far_red[OF m[unfolded SB]] obtain t1 where
    e1: "dfix_left t (Some p) (Some s) = deleteFixup t1 (root t1) None" and
    m1: "models t1 (plug c (N (N X p black kp vp SA) s pc ks vs (N SBl sb black kb vb SBr)))" and
    f1: "fresh t1 = fresh t" "size_of t1 = size_of t" by blast
  have rb: "rb_tree (plug c (N (N X p black kp vp SA) s pc ks vs (N SBl sb black kb vb SBr)))"
    using ci pcr inv SB by (cases pc) (auto simp: rb_plug)
  from dfix_done[OF m1 rb] obtain t2 where
    "deleteFixup t1 (root t1) None = Some t2"
    "models t2 (plug c (N (N X p black kp vp SA) s pc ks vs (N SBl sb black kb vb SBr)))"
    "fresh t2 = fresh t1" "size_of t2 = size_of t1" by blast
  with e1 f1 rb show ?thesis
    by (intro exI[of _ t2] exI[of _ "plug c (N (N X p black kp vp SA) s pc ks vs (N SBl sb black kb vb SBr))"])
       (simp add: entries_plug SB)
next
  case black
  with rd have "col SA = red" by simp
  then obtain SAl sa ka va SAr where SA: "SA = N SAl sa red ka va SAr" by (cases SA) auto
  from dfl_near_red[OF m[unfolded SA] black] obtain t1 where
    e1: "dfix_left t (Some p) (Some s) = deleteFixup t1 (root t1) None" and
    m1: "models t1 (plug c (N (N X p black kp vp SAl) sa pc ka va (N SAr s black ks vs SB)))" and
    f1: "fresh t1 = fresh t" "size_of t1 = size_of t" by blast
  have rb: "rb_tree (plug c (N (N X p black kp vp SAl) sa pc ka va (N SAr s black ks vs SB)))"
    using ci pcr inv SA black by (cases pc) (auto simp: rb_plug)
  from dfix_done[OF m1 rb] obtain t2 where
    "deleteFixup t1 (root t1) None = Some t2"
    "models t2 (plug c (N (N X p black kp vp SAl) sa pc ka va (N SAr s black ks vs SB)))"
    "fresh t2 = fresh t1" "size_of t2 = size_of t1" by blast
  with e1 f1 rb show ?thesis
    by (intro exI[of _ t2] exI[of _ "plug c (N (N X p black kp vp SAl) sa pc ka va (N SAr s black ks vs SB))"])
       (simp add: entries_plug SA)
qed

lemma dfr_finish:
  assumes m: "models t (plug c (N (N SA s black ks vs SB) p pc kp vp X))"
    and rd: "col SA = red \<or> col SB = red"
    and ci: "cinv c (if pc = black then Suc (Suc (bh X)) else Suc (bh X))"
    and pcr: "pc = red \<longrightarrow> ccol c = black \<and> c \<noteq> Top"
    and inv: "bh_ok X" "no_red_red X" "bh SA = bh X" "bh SB = bh X" "bh_ok SA" "bh_ok SB"
      "no_red_red SA" "no_red_red SB"
  shows "\<exists>t' T'. dfix_right t (Some p) (Some s) = Some t' \<and> models t' T' \<and> rb_tree T'
            \<and> entries T' = entries (plug c (N (N SA s black ks vs SB) p pc kp vp X))
            \<and> fresh t' = fresh t \<and> size_of t' = size_of t"
proof (cases "col SA")
  case red
  then obtain SAl sa ka va SAr where SA: "SA = N SAl sa red ka va SAr" by (cases SA) auto
  from dfr_far_red[OF m[unfolded SA]] obtain t1 where
    e1: "dfix_right t (Some p) (Some s) = deleteFixup t1 (root t1) None" and
    m1: "models t1 (plug c (N (N SAl sa black ka va SAr) s pc ks vs (N SB p black kp vp X)))" and
    f1: "fresh t1 = fresh t" "size_of t1 = size_of t" by blast
  have rb: "rb_tree (plug c (N (N SAl sa black ka va SAr) s pc ks vs (N SB p black kp vp X)))"
    using ci pcr inv SA by (cases pc) (auto simp: rb_plug)
  from dfix_done[OF m1 rb] obtain t2 where
    "deleteFixup t1 (root t1) None = Some t2"
    "models t2 (plug c (N (N SAl sa black ka va SAr) s pc ks vs (N SB p black kp vp X)))"
    "fresh t2 = fresh t1" "size_of t2 = size_of t1" by blast
  with e1 f1 rb show ?thesis
    by (intro exI[of _ t2] exI[of _ "plug c (N (N SAl sa black ka va SAr) s pc ks vs (N SB p black kp vp X))"])
       (simp add: entries_plug SA)
next
  case black
  with rd have "col SB = red" by simp
  then obtain SBl sb kb vb SBr where SB: "SB = N SBl sb red kb vb SBr" by (cases SB) auto
  from dfr_near_red[OF m[unfolded SB] black] obtain t1 where
    e1: "dfix_right t (Some p) (Some s) = deleteFixup t1 (root t1) None" and
    m1: "models t1 (plug c (N (N SA s black ks vs SBl) sb pc kb vb (N SBr p black kp vp X)))" and
    f1: "fresh t1 = fresh t" "size_of t1 = size_of t" by blast
  have rb: "rb_tree (plug c (N (N SA s black ks vs SBl) sb pc kb vb (N SBr p black kp vp X)))"
    using ci pcr inv SB black by (cases pc) (auto simp: rb_plug)
  from dfix_done[OF m1 rb] obtain t2 where
    "deleteFixup t1 (root t1) None = Some t2"
    "models t2 (plug c (N (N SA s black ks vs SBl) sb pc kb vb (N SBr p black kp vp X)))"
    "fresh t2 = fresh t1" "size_of t2 = size_of t1" by blast
  with e1 f1 rb show ?thesis
    by (intro exI[of _ t2] exI[of _ "plug c (N (N SA s black ks vs SBl) sb pc kb vb (N SBr p black kp vp X))"])
       (simp add: entries_plug SB)
qed


lemma deleteFixup_correct:
  "\<lbrakk>models t (plug c X); cinv c (Suc (bh X)); bh_ok X; no_red_red (blacken X)\<rbrakk>
   \<Longrightarrow> \<exists>t' T'. deleteFixup t (ptr X) (cptr c) = Some t' \<and> models t' T' \<and> rb_tree T'
            \<and> entries T' = entries (plug c X)
            \<and> fresh t' = fresh t \<and> size_of t' = size_of t"
proof (induction "length (caddrs c)" arbitrary: c t X rule: less_induct)
  case less
  note m = less.prems(1) and ci = less.prems(2) and inv = less.prems(3,4)
  show ?case
  proof (cases "c = Top \<or> col X = red")
    case True
    from dfix_exit_models[OF m] obtain t' where
      "(if ptr X \<noteq> None then put t (ptr X) (\<lambda>n. n\<lparr>Color := black\<rparr>) else Some t) = Some t'" and
      m': "models t' (plug c (blacken X))" and
      f: "fresh t' = fresh t" "size_of t' = size_of t" by blast
    with dfix_exit[OF m True, of "cptr c"]
    have e: "deleteFixup t (ptr X) (cptr c) = Some t'" by simp
    have rb: "rb_tree (plug c (blacken X))"
    proof (cases "c = Top")
      case True
      with inv show ?thesis by (simp add: rb_tree_def)
    next
      case False
      with True ci inv show ?thesis by (cases X) (auto simp: rb_plug)
    qed
    from e m' f rb show ?thesis
      by (intro exI[of _ t'] exI[of _ "plug c (blacken X)"]) (simp add: entries_plug)
  next
    case False
    then have cne: "c \<noteq> Top" and xb: "col X = black" by auto
    with inv have nx: "no_red_red X" by (simp add: blacken_black)
    show ?thesis
    proof (cases c)
      case Top
      with cne show ?thesis by simp
    next
      case (InL c' p pc kp vp S)
      with ci have S: "bh S = Suc (bh X)" "bh_ok S" "no_red_red S"
        and pcr: "pc = red \<longrightarrow> col S = black \<and> ccol c' = black \<and> c' \<noteq> Top"
        and ci': "cinv c' (if pc = black then Suc (Suc (bh X)) else Suc (bh X))" by auto
      from S(1) obtain SA s sc ks vs SB where Seq: "S = N SA s sc ks vs SB" by (cases S) auto
      from m InL Seq have m0: "models t (plug c' (N X p pc kp vp (N SA s sc ks vs SB)))" by simp
      have cp: "cptr c = Some p" by (simp add: InL)
      show ?thesis
      proof (cases sc)
        case red
        with pcr Seq have pb: "pc = black" by (cases pc) auto
        from S Seq red have SAB: "bh SA = Suc (bh X)" "bh SB = Suc (bh X)" "bh_ok SA" "bh_ok SB"
          "no_red_red SA" "no_red_red SB" "col SA = black" "col SB = black" by auto
        from SAB(1) obtain A1 a1 ac ka va A2 where SAeq: "SA = N A1 a1 ac ka va A2"
          by (cases SA) auto
        with SAB(7) have ac: "ac = black" by simp
        from dfix_L_pre[OF m0[unfolded red] xb] obtain t1 where
          e1: "deleteFixup t (ptr X) (Some p) = dfix_left t1 (Some p) (ptr SA)" and
          m1: "models t1 (plug c' (N (N X p red kp vp SA) s black ks vs SB))" and
          f1: "fresh t1 = fresh t" "size_of t1 = size_of t" by blast
        let ?c2 = "InL c' s black ks vs SB"
        from m1 SAeq ac
        have m1': "models t1 (plug ?c2 (N X p red kp vp (N A1 a1 black ka va A2)))" by simp
        from ci' pb SAB have ci2: "cinv ?c2 (Suc (bh X))" by simp
        show ?thesis
        proof (cases "col A1 = black \<and> col A2 = black")
          case True
          then have a12: "col A1 = black" "col A2 = black" by auto
          from dfl_both[OF m1' a12] obtain t2 where
            e2: "dfix_left t1 (Some p) (Some a1) = deleteFixup t2 (Some p) (cptr ?c2)" and
            m2: "models t2 (plug ?c2 (N X p red kp vp (N A1 a1 red ka va A2)))" and
            f2: "fresh t2 = fresh t1" "size_of t2 = size_of t1" by blast
          from dfix_exit_models[OF m2] obtain t3 where
            "put t2 (Some p) (\<lambda>n. n\<lparr>Color := black\<rparr>) = Some t3" and
            m3: "models t3 (plug ?c2 (N X p black kp vp (N A1 a1 red ka va A2)))" and
            f3: "fresh t3 = fresh t2" "size_of t3 = size_of t2" by auto
          with dfix_exit[OF m2, of "cptr ?c2"]
          have e3: "deleteFixup t2 (Some p) (cptr ?c2) = Some t3" by simp
          have rb: "rb_tree (plug ?c2 (N X p black kp vp (N A1 a1 red ka va A2)))"
            using ci2 inv nx SAB SAeq ac a12 by (simp add: rb_plug)
          from e1 e2 e3 m3 rb f1 f2 f3 show ?thesis
            by (intro exI[of _ t3] exI[of _ "plug ?c2 (N X p black kp vp (N A1 a1 red ka va A2))"])
               (simp add: InL Seq SAeq red ac pb entries_plug)
        next
          case False
          then have rd: "col A1 = red \<or> col A2 = red" by auto
          have "\<exists>t' T'. dfix_left t1 (Some p) (Some a1) = Some t' \<and> models t' T' \<and> rb_tree T'
            \<and> entries T' = entries (plug ?c2 (N X p red kp vp (N A1 a1 black ka va A2)))
            \<and> fresh t' = fresh t1 \<and> size_of t' = size_of t1"
            by (rule dfl_finish[OF m1' rd]) (use ci2 inv nx SAB SAeq ac in simp_all)
          then show ?thesis using e1 f1
            by (simp add: InL Seq SAeq red ac pb entries_plug)
        qed
      next
        case black
        from dfix_L_nopre[OF m0 xb] Seq black
        have e1: "deleteFixup t (ptr X) (Some p) = dfix_left t (Some p) (Some s)" by simp
        from S Seq black have SAB: "bh SA = bh X" "bh SB = bh X" "bh_ok SA" "bh_ok SB"
          "no_red_red SA" "no_red_red SB" by auto
        from m0 black
        have m0': "models t (plug c' (N X p pc kp vp (N SA s black ks vs SB)))" by simp
        show ?thesis
        proof (cases "col SA = black \<and> col SB = black")
          case True
          then have ab: "col SA = black" "col SB = black" by auto
          let ?X' = "N X p pc kp vp (N SA s red ks vs SB)"
          from dfl_both[OF m0' ab] obtain t1 where
            e2: "dfix_left t (Some p) (Some s) = deleteFixup t1 (Some p) (cptr c')" and
            m1: "models t1 (plug c' ?X')" and
            f1: "fresh t1 = fresh t" "size_of t1 = size_of t" by blast
          have lt: "length (caddrs c') < length (caddrs c)" by (simp add: InL)
          from ci' have ci2: "cinv c' (Suc (bh ?X'))" by (cases pc) auto
          have "\<exists>t' T'. deleteFixup t1 (ptr ?X') (cptr c') = Some t' \<and> models t' T' \<and> rb_tree T'
            \<and> entries T' = entries (plug c' ?X')
            \<and> fresh t' = fresh t1 \<and> size_of t' = size_of t1"
            by (rule less.hyps[OF lt m1 ci2]) (use inv nx SAB ab in simp_all)
          then show ?thesis using e1 e2 f1
            by (simp add: InL Seq black entries_plug)
        next
          case False
          then have rd: "col SA = red \<or> col SB = red" by auto
          have "\<exists>t' T'. dfix_left t (Some p) (Some s) = Some t' \<and> models t' T' \<and> rb_tree T'
            \<and> entries T' = entries (plug c' (N X p pc kp vp (N SA s black ks vs SB)))
            \<and> fresh t' = fresh t \<and> size_of t' = size_of t"
            by (rule dfl_finish[OF m0' rd ci']) (use pcr inv nx SAB in simp_all)
          then show ?thesis using e1
            by (simp add: InL Seq black entries_plug)
        qed
      qed
    next
      case (InR S p pc kp vp c')
      with ci have S: "bh S = Suc (bh X)" "bh_ok S" "no_red_red S"
        and pcr: "pc = red \<longrightarrow> col S = black \<and> ccol c' = black \<and> c' \<noteq> Top"
        and ci': "cinv c' (if pc = black then Suc (Suc (bh X)) else Suc (bh X))" by auto
      from S(1) obtain SA s sc ks vs SB where Seq: "S = N SA s sc ks vs SB" by (cases S) auto
      from m InR Seq have m0: "models t (plug c' (N (N SA s sc ks vs SB) p pc kp vp X))" by simp
      have cp: "cptr c = Some p" by (simp add: InR)
      show ?thesis
      proof (cases sc)
        case red
        with pcr Seq have pb: "pc = black" by (cases pc) auto
        from S Seq red have SAB: "bh SA = Suc (bh X)" "bh SB = Suc (bh X)" "bh_ok SA" "bh_ok SB"
          "no_red_red SA" "no_red_red SB" "col SA = black" "col SB = black" by auto
        from SAB(2) obtain B1 b1 bc kb vb B2 where SBeq: "SB = N B1 b1 bc kb vb B2"
          by (cases SB) auto
        with SAB(8) have bc: "bc = black" by simp
        from dfix_R_pre[OF m0[unfolded red] xb] obtain t1 where
          e1: "deleteFixup t (ptr X) (Some p) = dfix_right t1 (Some p) (ptr SB)" and
          m1: "models t1 (plug c' (N SA s black ks vs (N SB p red kp vp X)))" and
          f1: "fresh t1 = fresh t" "size_of t1 = size_of t" by blast
        let ?c2 = "InR SA s black ks vs c'"
        from m1 SBeq bc
        have m1': "models t1 (plug ?c2 (N (N B1 b1 black kb vb B2) p red kp vp X))" by simp
        from ci' pb SAB have ci2: "cinv ?c2 (Suc (bh X))" by simp
        show ?thesis
        proof (cases "col B1 = black \<and> col B2 = black")
          case True
          then have b12: "col B1 = black" "col B2 = black" by auto
          from dfr_both[OF m1' b12] obtain t2 where
            e2: "dfix_right t1 (Some p) (Some b1) = deleteFixup t2 (Some p) (cptr ?c2)" and
            m2: "models t2 (plug ?c2 (N (N B1 b1 red kb vb B2) p red kp vp X))" and
            f2: "fresh t2 = fresh t1" "size_of t2 = size_of t1" by blast
          from dfix_exit_models[OF m2] obtain t3 where
            "put t2 (Some p) (\<lambda>n. n\<lparr>Color := black\<rparr>) = Some t3" and
            m3: "models t3 (plug ?c2 (N (N B1 b1 red kb vb B2) p black kp vp X))" and
            f3: "fresh t3 = fresh t2" "size_of t3 = size_of t2" by auto
          with dfix_exit[OF m2, of "cptr ?c2"]
          have e3: "deleteFixup t2 (Some p) (cptr ?c2) = Some t3" by simp
          have rb: "rb_tree (plug ?c2 (N (N B1 b1 red kb vb B2) p black kp vp X))"
            using ci2 inv nx SAB SBeq bc b12 by (simp add: rb_plug)
          from e1 e2 e3 m3 rb f1 f2 f3 show ?thesis
            by (intro exI[of _ t3] exI[of _ "plug ?c2 (N (N B1 b1 red kb vb B2) p black kp vp X)"])
               (simp add: InR Seq SBeq red bc pb entries_plug)
        next
          case False
          then have rd: "col B1 = red \<or> col B2 = red" by auto
          have "\<exists>t' T'. dfix_right t1 (Some p) (Some b1) = Some t' \<and> models t' T' \<and> rb_tree T'
            \<and> entries T' = entries (plug ?c2 (N (N B1 b1 black kb vb B2) p red kp vp X))
            \<and> fresh t' = fresh t1 \<and> size_of t' = size_of t1"
            by (rule dfr_finish[OF m1' rd]) (use ci2 inv nx SAB SBeq bc in simp_all)
          then show ?thesis using e1 f1
            by (simp add: InR Seq SBeq red bc pb entries_plug)
        qed
      next
        case black
        have "N SA s sc ks vs SB \<noteq> E" by simp
        from dfix_R_nopre[OF m0 xb _ this] Seq black
        have e1: "deleteFixup t (ptr X) (Some p) = dfix_right t (Some p) (Some s)" by simp
        from S Seq black have SAB: "bh SA = bh X" "bh SB = bh X" "bh_ok SA" "bh_ok SB"
          "no_red_red SA" "no_red_red SB" by auto
        from m0 black
        have m0': "models t (plug c' (N (N SA s black ks vs SB) p pc kp vp X))" by simp
        show ?thesis
        proof (cases "col SA = black \<and> col SB = black")
          case True
          then have ab: "col SA = black" "col SB = black" by auto
          let ?X' = "N (N SA s red ks vs SB) p pc kp vp X"
          from dfr_both[OF m0' ab] obtain t1 where
            e2: "dfix_right t (Some p) (Some s) = deleteFixup t1 (Some p) (cptr c')" and
            m1: "models t1 (plug c' ?X')" and
            f1: "fresh t1 = fresh t" "size_of t1 = size_of t" by blast
          have lt: "length (caddrs c') < length (caddrs c)" by (simp add: InR)
          from ci' SAB have ci2: "cinv c' (Suc (bh ?X'))" by (cases pc) auto
          have "\<exists>t' T'. deleteFixup t1 (ptr ?X') (cptr c') = Some t' \<and> models t' T' \<and> rb_tree T'
            \<and> entries T' = entries (plug c' ?X')
            \<and> fresh t' = fresh t1 \<and> size_of t' = size_of t1"
            by (rule less.hyps[OF lt m1 ci2]) (use inv nx SAB ab in simp_all)
          then show ?thesis using e1 e2 f1
            by (simp add: InR Seq black entries_plug)
        next
          case False
          then have rd: "col SA = red \<or> col SB = red" by auto
          have "\<exists>t' T'. dfix_right t (Some p) (Some s) = Some t' \<and> models t' T' \<and> rb_tree T'
            \<and> entries T' = entries (plug c' (N (N SA s black ks vs SB) p pc kp vp X))
            \<and> fresh t' = fresh t \<and> size_of t' = size_of t"
            by (rule dfr_finish[OF m0' rd ci']) (use pcr inv nx SAB in simp_all)
          then show ?thesis using e1
            by (simp add: InR Seq black entries_plug)
        qed
      qed
    qed
  qed
qed

section \<open>Correctness of Delete\<close>


lemma ccol_cplug: "ccol (cplug c cs) = (if cs = Top then ccol c else ccol cs)"
  by (cases cs) auto

lemma cplug_Top [simp]: "(cplug c cs = Top) = (c = Top \<and> cs = Top)"
  by (cases cs) auto

lemma cinv_cplug_frame:
  "cinv (cplug (InR l a cl k v c) cs) h = cinv (cplug (InR l s cl k' v' c) cs) h"
  by (induction cs arbitrary: h) (auto simp: ccol_cplug)

lemma cleft_cplug: "cleft (cplug c cs) = cleft c @ cleft cs"
  by (induction cs) auto

lemma cright_cplug: "cright (cplug c cs) = cright cs @ cright c"
  by (induction cs) auto

lemma remove_absent: "key \<notin> fst ` set es \<Longrightarrow> remove key es = es"
  by (induction es) auto

lemma remove_sorted:
  "sorted_wrt (<) (map fst (xs @ (key, v) # ys)) \<Longrightarrow> remove key (xs @ (key, v) # ys) = xs @ ys"
proof (induction xs)
  case Nil
  then have "key \<notin> fst ` set ys" by auto
  then show ?case by (simp add: remove_absent)
next
  case (Cons x xs)
  then show ?case by (cases x) auto
qed

lemma Delete_finish:
  assumes s: "Search t key = Some (Some a)"
    and ds: "delete_switch t (Some a) = Some (oc, ptr X, cptr C, t1)"
    and m1: "models t1 (plug C X)"
    and r: "oc = red \<longrightarrow> rb_tree (plug C X)"
    and bl: "oc = black \<longrightarrow> cinv C (Suc (bh X)) \<and> bh_ok X \<and> no_red_red (blacken X)"
    and f: "fresh t1 = fresh t" "size_of t1 = size_of t"
  shows "\<exists>t' T'. Delete t key = Some (True, t') \<and> models t' T' \<and> rb_tree T'
            \<and> entries T' = entries (plug C X)
            \<and> fresh t' = fresh t \<and> size_of t' = size_of t - 1"
proof (cases oc)
  case red
  with s ds have "Delete t key = Some (True, t1\<lparr>size_of := size_of t1 - 1\<rparr>)"
    by (simp add: Delete_def)
  with m1 r red f show ?thesis
    by (intro exI[of _ "t1\<lparr>size_of := size_of t1 - 1\<rparr>"] exI[of _ "plug C X"]) simp
next
  case black
  have "\<exists>t' T'. deleteFixup t1 (ptr X) (cptr C) = Some t' \<and> models t' T' \<and> rb_tree T'
            \<and> entries T' = entries (plug C X)
            \<and> fresh t' = fresh t1 \<and> size_of t' = size_of t1"
    by (rule deleteFixup_correct[OF m1]) (use bl black in simp_all)
  then obtain t2 T2 where
    e: "deleteFixup t1 (ptr X) (cptr C) = Some t2" and m2: "models t2 T2" "rb_tree T2"
      "entries T2 = entries (plug C X)" and f2: "fresh t2 = fresh t1" "size_of t2 = size_of t1"
    by blast
  from s ds e black have "Delete t key = Some (True, t2\<lparr>size_of := size_of t2 - 1\<rparr>)"
    by (simp add: Delete_def)
  with m2 f f2 show ?thesis
    by (intro exI[of _ "t2\<lparr>size_of := size_of t2 - 1\<rparr>"] exI[of _ T2]) simp
qed

lemma Delete_present:
  assumes m: "models t T" and rb: "rb_tree T" and b: "bst T"
    and d: "descend key Top T = (c, N l a cl k v r)"
  shows "\<exists>t' T'. Delete t key = Some (True, t') \<and> models t' T' \<and> rb_tree T'
            \<and> entries T' = remove key (entries T)
            \<and> entries T = cleft c @ entries l @ (key, v) # entries r @ cright c
            \<and> entries T' = cleft c @ entries l @ entries r @ cright c
            \<and> fresh t' = fresh t \<and> size_of t' = size_of t - 1"
proof -
  from descend_result[OF d] have k: "k = key" by simp
  from descend_plug[OF d] k have T: "T = plug c (N l a cl key v r)" by simp
  from Search_descend[OF m, of key] d have s: "Search t key = Some (Some a)" by simp
  from m T have m0: "models t (plug c (N l a cl key v r))" by simp
  from rb T have inv: "cinv c (bh (N l a cl key v r))" "bh l = bh r" "bh_ok l" "bh_ok r"
    "no_red_red l" "no_red_red r" "cl = red \<longrightarrow> col l = black \<and> col r = black"
    "ccol c = red \<longrightarrow> cl = black" "c = Top \<longrightarrow> cl = black"
    by (auto simp: rb_plug)
  have eT: "entries T = cleft c @ entries l @ (key, v) # entries r @ cright c"
    by (simp add: T entries_plug)
  from b have "sorted_wrt (<) (map fst ((cleft c @ entries l) @ (key, v) # (entries r @ cright c)))"
    by (simp add: bst_def keys_def eT)
  from remove_sorted[OF this]
  have rm: "remove key (entries T) = cleft c @ entries l @ entries r @ cright c"
    by (simp add: eT)
  have "\<exists>t' T'. Delete t key = Some (True, t') \<and> models t' T' \<and> rb_tree T'
            \<and> entries T' = cleft c @ entries l @ entries r @ cright c
            \<and> fresh t' = fresh t \<and> size_of t' = size_of t - 1"
  proof (cases "l = E")
    case True
    from dsw_noleft[OF m0[unfolded True]] obtain t1 where
      ds: "delete_switch t (Some a) = Some (cl, ptr r, cptr c, t1)" and
      m1: "models t1 (plug c r)" and f: "fresh t1 = fresh t" "size_of t1 = size_of t" by blast
    have "\<exists>t' T'. Delete t key = Some (True, t') \<and> models t' T' \<and> rb_tree T'
            \<and> entries T' = entries (plug c r)
            \<and> fresh t' = fresh t \<and> size_of t' = size_of t - 1"
      by (rule Delete_finish[OF s ds m1 _ _ f])
         (use inv True in \<open>auto simp: rb_plug no_red_red_blacken\<close>)
    then show ?thesis by (simp add: entries_plug True)
  next
    case lne: False
    show ?thesis
    proof (cases "r = E")
      case True
      from dsw_noright[OF m0[unfolded True] lne] obtain t1 where
        ds: "delete_switch t (Some a) = Some (cl, ptr l, cptr c, t1)" and
        m1: "models t1 (plug c l)" and f: "fresh t1 = fresh t" "size_of t1 = size_of t" by blast
      have "\<exists>t' T'. Delete t key = Some (True, t') \<and> models t' T' \<and> rb_tree T'
            \<and> entries T' = entries (plug c l)
            \<and> fresh t' = fresh t \<and> size_of t' = size_of t - 1"
        by (rule Delete_finish[OF s ds m1 _ _ f])
           (use inv True in \<open>auto simp: rb_plug no_red_red_blacken\<close>)
      then show ?thesis by (simp add: entries_plug True)
    next
      case rne: False
      obtain cs M where lm: "leftmost Top r = (cs, M)" by (cases "leftmost Top r")
      from leftmost_shape[OF rne lm] obtain s' sc sk sv sr where M: "M = N E s' sc sk sv sr"
        by blast
      from leftmost_plug[OF lm] M have r: "r = plug cs (N E s' sc sk sv sr)" by simp
      from cleft_leftmost[of Top r] lm have cl0: "cleft cs = []" by simp
      let ?C = "cplug (InR l s' cl sk sv c) cs"
      from dsw_two[OF m0 lne rne lm[unfolded M]] obtain t1 where
        ds: "delete_switch t (Some a) = Some (sc, ptr sr, cptr ?C, t1)" and
        m1: "models t1 (plug c (N l s' cl sk sv (plug cs sr)))" and
        f: "fresh t1 = fresh t" "size_of t1 = size_of t" by blast
      from m1 have m1': "models t1 (plug ?C sr)" by (simp add: plug_cplug)
      from rb T r have "rb_tree (plug (cplug (InR l a cl key v c) cs) (N E s' sc sk sv sr))"
        by (simp add: plug_cplug)
      then have i2: "cinv (cplug (InR l a cl key v c) cs) (bh (N E s' sc sk sv sr))"
        "bh sr = 0" "bh_ok sr" "no_red_red sr" "sc = red \<longrightarrow> col sr = black"
        "ccol (cplug (InR l a cl key v c) cs) = red \<longrightarrow> sc = black"
        by (auto simp: rb_plug)
      from i2(1) have i3: "cinv ?C (bh (N E s' sc sk sv sr))"
        by (simp add: cinv_cplug_frame[of l a cl key v c cs _ s' sk sv])
      from i2(6) have i4: "ccol ?C = red \<longrightarrow> sc = black"
        by (simp add: ccol_cplug)
      have "\<exists>t' T'. Delete t key = Some (True, t') \<and> models t' T' \<and> rb_tree T'
            \<and> entries T' = entries (plug ?C sr)
            \<and> fresh t' = fresh t \<and> size_of t' = size_of t - 1"
        by (rule Delete_finish[OF s ds m1' _ _ f])
           (use i2 i3 i4 in \<open>auto simp: rb_plug no_red_red_blacken\<close>)
      then show ?thesis
        by (simp add: entries_plug cleft_cplug cright_cplug r cl0)
    qed
  qed
  with rm eT show ?thesis by simp
qed

section \<open>Every call keeps the store well formed\<close>


lemma upsert_keys: "fst ` set (upsert key val es) = insert key (fst ` set es)"
  by (induction es) (force split: if_splits)+

lemma sorted_upsert:
  "sorted_wrt (<) (map fst es) \<Longrightarrow> sorted_wrt (<) (map fst (upsert key val es))"
proof (induction es)
  case Nil
  show ?case by simp
next
  case (Cons e es)
  obtain k v where e: "e = (k, v)" by (cases e)
  from Cons.prems have s: "sorted_wrt (<) (map fst es)" and lt: "\<forall>x\<in>fst ` set es. k < x"
    by (auto simp: e)
  show ?case
  proof (cases "key < k")
    case True
    with Cons.prems lt show ?thesis by (auto simp: e)
  next
    case nlt: False
    show ?thesis
    proof (cases "k < key")
      case True
      with nlt Cons.IH[OF s] lt show ?thesis by (auto simp: e upsert_keys)
    next
      case False
      with nlt have "key = k" by auto
      with Cons.prems show ?thesis by (auto simp: e)
    qed
  qed
qed

lemma length_upsert:
  "sorted_wrt (<) (map fst es) \<Longrightarrow>
   length (upsert key val es) = (if key \<in> fst ` set es then length es else Suc (length es))"
proof (induction es)
  case Nil
  show ?case by simp
next
  case (Cons e es)
  obtain k v where e: "e = (k, v)" by (cases e)
  from Cons.prems have s: "sorted_wrt (<) (map fst es)" and lt: "\<forall>x\<in>fst ` set es. k < x"
    by (auto simp: e)
  show ?case
  proof (cases "key < k")
    case True
    with lt have "key \<notin> fst ` set es" by force
    with True show ?thesis by (auto simp: e)
  next
    case nlt: False
    show ?thesis
    proof (cases "k < key")
      case True
      with nlt Cons.IH[OF s] show ?thesis by (auto simp: e)
    next
      case False
      with nlt have "key = k" by auto
      then show ?thesis by (auto simp: e)
    qed
  qed
qed

lemma remove_keys: "fst ` set (remove key es) = fst ` set es - {key}"
  by (induction es) (force split: if_splits)+

lemma sorted_remove:
  "sorted_wrt (<) (map fst es) \<Longrightarrow> sorted_wrt (<) (map fst (remove key es))"
  by (induction es) (auto simp: remove_keys)

lemma length_remove:
  "sorted_wrt (<) (map fst es) \<Longrightarrow>
   length (remove key es) = (if key \<in> fst ` set es then length es - 1 else length es)"
proof (induction es)
  case Nil
  show ?case by simp
next
  case (Cons e es)
  obtain k v where e: "e = (k, v)" by (cases e)
  from Cons.prems have s: "sorted_wrt (<) (map fst es)" and lt: "\<forall>x\<in>fst ` set es. k < x"
    by (auto simp: e)
  show ?case
  proof (cases "k = key")
    case True
    with lt have "key \<notin> fst ` set es" by force
    with True show ?thesis by (simp add: e remove_absent)
  next
    case False
    with Cons.IH[OF s] show ?thesis by (auto simp: e dest: length_pos_if_in_set)
  qed
qed

lemma keys_set: "set (keys T) = fst ` set (entries T)"
  by (simp add: keys_def)

lemma valid_New: "valid New E"
  by (simp add: valid_def models_def New_def rb_tree_def bst_def keys_def)

lemma Insert_valid:
  assumes i: "valid t T"
  shows "\<exists>t' T'. Insert t key val = Some t' \<and> valid t' T'
            \<and> entries T' = upsert key val (entries T)
            \<and> size_of t' = size_of t + (if key \<in> fst ` set (entries T) then 0 else 1)"
proof -
  from i have m: "models t T" and rb: "rb_tree T" and b: "bst T"
    and sz: "size_of t = int (length (entries T))" by (auto simp: valid_def)
  from b have so: "sorted_wrt (<) (map fst (entries T))" by (simp add: bst_def keys_def)
  obtain c W where d: "descend key Top T = (c, W)" by (cases "descend key Top T")
  show ?thesis
  proof (cases W)
    case E
    from Insert_absent[OF m rb b d[unfolded E], of val] obtain t' T' where
      r: "Insert t key val = Some t'" "models t' T'" "rb_tree T'"
        "entries T' = upsert key val (entries T)" "size_of t' = size_of t + 1"
        "key \<notin> set (keys T)" by auto
    from r(4) so have "bst T'" by (simp add: bst_def keys_def sorted_upsert)
    moreover from r sz so have "size_of t' = int (length (entries T'))"
      by (simp add: length_upsert keys_set)
    ultimately show ?thesis using r
      by (intro exI[of _ t'] exI[of _ T']) (simp add: valid_def keys_set)
  next
    case (N l a cl k v r)
    from Insert_present[OF m b d[unfolded N], of val] obtain nd where
      r: "Insert t key val = Some (t\<lparr>heap := (heap t)(a := Some (nd\<lparr>Value := val\<rparr>))\<rparr>)"
        "models (t\<lparr>heap := (heap t)(a := Some (nd\<lparr>Value := val\<rparr>))\<rparr>) (plug c (N l a cl key val r))"
        "rb_tree T \<longrightarrow> rb_tree (plug c (N l a cl key val r))"
        "entries (plug c (N l a cl key val r)) = upsert key val (entries T)"
        "key \<in> set (keys T)" by blast
    let ?t = "t\<lparr>heap := (heap t)(a := Some (nd\<lparr>Value := val\<rparr>))\<rparr>"
    let ?T = "plug c (N l a cl key val r)"
    from r(4) so have "bst ?T" by (simp add: bst_def keys_def sorted_upsert)
    moreover from r sz so have "size_of ?t = int (length (entries ?T))"
      by (simp add: length_upsert keys_set)
    ultimately show ?thesis using r rb
      by (intro exI[of _ ?t] exI[of _ ?T]) (simp add: valid_def keys_set)
  qed
qed

lemma Delete_valid:
  assumes i: "valid t T"
  shows "\<exists>t' T'. Delete t key = Some (key \<in> fst ` set (entries T), t') \<and> valid t' T'
            \<and> entries T' = remove key (entries T)
            \<and> size_of t' = size_of t - (if key \<in> fst ` set (entries T) then 1 else 0)
            \<and> (key \<notin> fst ` set (entries T) \<longrightarrow> t' = t)"
proof -
  from i have m: "models t T" and rb: "rb_tree T" and b: "bst T"
    and sz: "size_of t = int (length (entries T))" by (auto simp: valid_def)
  from b have so: "sorted_wrt (<) (map fst (entries T))" by (simp add: bst_def keys_def)
  obtain c W where d: "descend key Top T = (c, W)" by (cases "descend key Top T")
  show ?thesis
  proof (cases W)
    case E
    with descend_present_iff[OF b, of key] d have ab: "key \<notin> set (keys T)" by simp
    with Search_descend[OF m, of key] d E have "Search t key = Some None" by simp
    then have "Delete t key = Some (False, t)" by (simp add: Delete_def)
    with ab i show ?thesis
      by (intro exI[of _ t] exI[of _ T]) (simp add: keys_set remove_absent)
  next
    case (N l a cl k v r)
    with descend_present_iff[OF b, of key] d have pr: "key \<in> set (keys T)" by simp
    from Delete_present[OF m rb b d[unfolded N]] obtain t' T' where
      r: "Delete t key = Some (True, t')" "models t' T'" "rb_tree T'"
        "entries T' = remove key (entries T)" "size_of t' = size_of t - 1" by blast
    from r(4) so have "bst T'" by (simp add: bst_def keys_def sorted_remove)
    moreover from pr have "0 < length (entries T)" by (auto simp: keys_set)
    then have "int (length (entries T) - 1) = int (length (entries T)) - 1" by linarith
    with r sz so pr have "size_of t' = int (length (entries T'))"
      by (simp add: length_remove keys_set)
    ultimately show ?thesis using r pr
      by (intro exI[of _ t'] exI[of _ T']) (simp add: valid_def keys_set)
  qed
qed

lemma run_valid:
  "valid t T \<Longrightarrow>
   \<exists>t' T'. run t ops = Some (expected (entries T) ops, t') \<and> valid t' T'
      \<and> entries T' = foldl step (entries T) ops
      \<and> size_of t' = size_of t + int (new_inserts (entries T) ops)
                        - int (length (filter (\<lambda>b. b) (expected (entries T) ops)))"
proof (induction ops arbitrary: t T)
  case Nil
  then show ?case by (intro exI[of _ t] exI[of _ T]) simp
next
  case (Cons x ops)
  show ?case
  proof (cases x)
    case (Ins k v)
    from Insert_valid[OF Cons.prems, of k v] obtain t1 T1 where
      i: "Insert t k v = Some t1" and v1: "valid t1 T1" and
      e1: "entries T1 = upsert k v (entries T)" and
      s1: "size_of t1 = size_of t + (if k \<in> fst ` set (entries T) then 0 else 1)" by blast
    from Cons.IH[OF v1] obtain t2 T2 where
      r: "run t1 ops = Some (expected (entries T1) ops, t2)" and v2: "valid t2 T2" and
      e2: "entries T2 = foldl step (entries T1) ops" and
      s2: "size_of t2 = size_of t1 + int (new_inserts (entries T1) ops)
                        - int (length (filter (\<lambda>b. b) (expected (entries T1) ops)))" by blast
    from i r v2 e2 s2 e1 s1 show ?thesis
      by (intro exI[of _ t2] exI[of _ T2]) (simp add: Ins)
  next
    case (Del k)
    from Delete_valid[OF Cons.prems, of k] obtain t1 T1 where
      i: "Delete t k = Some (k \<in> fst ` set (entries T), t1)" and v1: "valid t1 T1" and
      e1: "entries T1 = remove k (entries T)" and
      s1: "size_of t1 = size_of t - (if k \<in> fst ` set (entries T) then 1 else 0)" by blast
    from Cons.IH[OF v1] obtain t2 T2 where
      r: "run t1 ops = Some (expected (entries T1) ops, t2)" and v2: "valid t2 T2" and
      e2: "entries T2 = foldl step (entries T1) ops" and
      s2: "size_of t2 = size_of t1 + int (new_inserts (entries T1) ops)
                        - int (length (filter (\<lambda>b. b) (expected (entries T1) ops)))" by blast
    from i r v2 e2 s2 e1 s1 show ?thesis
      by (intro exI[of _ t2] exI[of _ T2]) (simp add: Del)
  qed
qed

lemma run_New:
  "\<exists>t T. run New ops = Some (expected [] ops, t) \<and> valid t T
      \<and> entries T = contents ops
      \<and> size_of t = int (new_inserts [] ops) - int (length (filter (\<lambda>b. b) (expected [] ops)))"
  using run_valid[OF valid_New, of ops] by (simp add: contents_def New_def)

section \<open>The invariants after every sequence of calls\<close>

lemma path_blacks_ne: "path_blacks T \<noteq> []"
  by (induction T) auto

lemma path_blacks_bh: "bh_ok T \<Longrightarrow> set (path_blacks T) = {bh T}"
  by (induction T) auto

lemma bh_ok_subtrees: "bh_ok T \<Longrightarrow> S \<in> set (subtrees T) \<Longrightarrow> bh_ok S"
  by (induction T) auto

lemma bh_ok_uniform: "bh_ok T \<Longrightarrow> uniform_blacks T"
proof -
  assume b: "bh_ok T"
  have "list_all (\<lambda>m. m = hd (path_blacks S)) (path_blacks S)" if "S \<in> set (subtrees T)" for S
  proof -
    from bh_ok_subtrees[OF b that] have s: "set (path_blacks S) = {bh S}" by (rule path_blacks_bh)
    with path_blacks_ne[of S] have "hd (path_blacks S) = bh S"
      by (cases "path_blacks S") auto
    with s show ?thesis by (simp add: list_all_iff)
  qed
  then show ?thesis by (simp add: uniform_blacks_def list_all_iff)
qed

lemma fold_collect: "fold (\<lambda>(k, v) ks. ks @ [k]) es acc = acc @ map fst es"
  by (induction es arbitrary: acc) auto

lemma InOrder_keys: "models t T \<Longrightarrow> InOrder t (\<lambda>k v ks. ks @ [k]) [] = Some (keys T)"
  using InOrder_models[of t T "\<lambda>k v ks. ks @ [k]" "[]"] by (simp add: fold_collect keys_def)

lemma root_colour: "models t T \<Longrightarrow> colorOf t (root t) = Some (col T)"
  using colorOf_focus[of t Top T] by (simp add: models_def)

lemma rep_unique: "rep h p T \<Longrightarrow> rep h p' T' \<Longrightarrow> ptr T = ptr T' \<Longrightarrow> T = T'"
proof (induction T arbitrary: p p' T')
  case E
  then show ?case by (cases T') auto
next
  case (N l a c k v r)
  from N.prems(3) obtain l' c' k' v' r' where T': "T' = N l' a c' k' v' r'" by (cases T') auto
  from N.prems(1,2) T' have e: "c = c'" "k = k'" "v = v'" "ptr l = ptr l'" "ptr r = ptr r'"
    and rl: "rep h (Some a) l" "rep h (Some a) l'" and rr: "rep h (Some a) r" "rep h (Some a) r'"
    by auto
  from N.IH(1)[OF rl e(4)] N.IH(2)[OF rr e(5)] e T' show ?case by simp
qed

lemma models_unique: "models t T \<Longrightarrow> models t T' \<Longrightarrow> T = T'"
  using rep_unique[of "heap t" None T None T'] by (simp add: models_def)

text \<open>
  Claim C1. After every sequence of calls of \<^verbatim>\<open>Insert\<close> and \<^verbatim>\<open>Delete\<close> on the empty
  tree, every call returns, and the store holds a tree \<open>T\<close> (the only tree that its
  pointers describe) with the red-black invariants:
  the root, if there is one, is black (read from the store by \<^verbatim>\<open>colorOf\<close>, and in \<open>T\<close>);
  no red node has a red child; from every node, all the paths down to a missing child pass
  the same number of black nodes; and the keys in in-order sequence, which is the sequence
  that \<^verbatim>\<open>InOrder\<close> visits, are strictly increasing. As the sequence of calls is arbitrary,
  this holds after each call of a longer sequence.
\<close>

theorem invariants_after_every_run:
  "\<exists>bs t T. run New ops = Some (bs, t) \<and> models t T \<and> (\<forall>T'. models t T' \<longrightarrow> T' = T)
      \<and> colorOf t (root t) = Some black \<and> col T = black
      \<and> no_red_red T
      \<and> uniform_blacks T
      \<and> InOrder t (\<lambda>k v ks. ks @ [k]) [] = Some (keys T)
      \<and> sorted_wrt (<) (keys T)"
proof -
  from run_New[of ops] obtain t T where
    r: "run New ops = Some (expected [] ops, t)" and v: "valid t T" by blast
  from v have m: "models t T" and rb: "rb_tree T" and b: "bst T" by (auto simp: valid_def)
  from rb have c: "col T = black" "no_red_red T" "bh_ok T" by (auto simp: rb_tree_def)
  from models_unique[OF _ m] have u: "\<forall>T'. models t T' \<longrightarrow> T' = T" by blast
  from c root_colour[OF m] bh_ok_uniform[OF c(3)] InOrder_keys[OF m] b
  have "colorOf t (root t) = Some black \<and> col T = black \<and> no_red_red T \<and> uniform_blacks T
      \<and> InOrder t (\<lambda>k v ks. ks @ [k]) [] = Some (keys T) \<and> sorted_wrt (<) (keys T)"
    by (simp add: bst_def)
  with r m u show ?thesis by blast
qed

theorem invariants_after_every_run_witness:
  "(\<exists>bs t T. run New [Ins ''a'' (1::nat), Ins ''b'' 2, Ins ''c'' 3, Ins ''d'' 4, Del ''a''] = Some (bs, t)
      \<and> models t T \<and> (\<forall>T'. models t T' \<longrightarrow> T' = T)
      \<and> colorOf t (root t) = Some black \<and> col T = black
      \<and> no_red_red T
      \<and> uniform_blacks T
      \<and> InOrder t (\<lambda>k v ks. ks @ [k]) [] = Some (keys T)
      \<and> sorted_wrt (<) (keys T))
   \<and> map_option (\<lambda>(bs, t). (bs, Size t, colorOf t (root t), InOrder t (\<lambda>k v ks. ks @ [k]) []))
        (run New [Ins ''a'' (1::nat), Ins ''b'' 2, Ins ''c'' 3, Ins ''d'' 4, Del ''a''])
      = Some ([True], 3, Some black, Some [''b'', ''c'', ''d''])"
proof -
  have "map_option (\<lambda>(bs, t). (bs, Size t, colorOf t (root t), InOrder t (\<lambda>k v ks. ks @ [k]) []))
        (run New [Ins ''a'' (1::nat), Ins ''b'' 2, Ins ''c'' 3, Ins ''d'' 4, Del ''a''])
      = Some ([True], 3, Some black, Some [''b'', ''c'', ''d''])"
    by code_simp
  with invariants_after_every_run[of "[Ins ''a'' (1::nat), Ins ''b'' 2, Ins ''c'' 3, Ins ''d'' 4, Del ''a'']"]
  show ?thesis by blast
qed

section \<open>Insert, Search and Delete of one key\<close>

lemma sorted_unique:
  "sorted_wrt (<) (map fst es) \<Longrightarrow> (k::string, v) \<in> set es \<Longrightarrow> (k, v') \<in> set es \<Longrightarrow> v = v'"
  using eq_key_imp_eq_value[of es k v v'] by (simp add: strict_sorted_iff)

lemma upsert_holds: "(key, val) \<in> set (upsert key val es)"
  by (induction es) auto

lemma Search_found:
  assumes m: "models t T" and b: "bst T" and e: "(k, v) \<in> set (entries T)"
  shows "\<exists>a nd. Search t k = Some (Some a) \<and> a \<in> set (addrs T) \<and> heap t a = Some nd
            \<and> Key nd = k \<and> Value nd = v"
proof -
  obtain c W where d: "descend k Top T = (c, W)" by (cases "descend k Top T")
  from e have "k \<in> set (keys T)" by (force simp: keys_def)
  with descend_present_iff[OF b, of k] d have "W \<noteq> E" by simp
  with descend_result[OF d] obtain l a cl v' r where W: "W = N l a cl k v' r" by auto
  from descend_plug[OF d] W have T: "T = plug c (N l a cl k v' r)" by simp
  then have "(k, v') \<in> set (entries T)" by (simp add: entries_plug)
  with b e have v: "v' = v" by (auto simp: bst_def keys_def dest: sorted_unique)
  from m T have "models t (plug c (N l a cl k v' r))" by simp
  from read_focus[OF this] v
  have h: "heap t a = Some \<lparr>Key = k, Value = v, Color = cl, Parent = cptr c, Left = ptr l, Right = ptr r\<rparr>"
    by simp
  from T have "a \<in> set (addrs T)" by (simp add: set_addrs_plug)
  with Search_descend[OF m, of k] d W h show ?thesis by simp
qed

lemma Search_absent:
  assumes m: "models t T" and b: "bst T" and e: "k \<notin> fst ` set (entries T)"
  shows "Search t k = Some None"
proof -
  from e descend_present_iff[OF b, of k] have "snd (descend k Top T) = E"
    by (simp add: keys_def)
  with Search_descend[OF m, of k] show ?thesis by simp
qed

lemma Insert_tree:
  assumes m: "models t T" and rb: "rb_tree T" and b: "bst T"
  shows "\<exists>t' T'. Insert t key val = Some t' \<and> models t' T' \<and> rb_tree T' \<and> bst T'
            \<and> entries T' = upsert key val (entries T)"
proof -
  from b have so: "sorted_wrt (<) (map fst (entries T))" by (simp add: bst_def keys_def)
  obtain c W where d: "descend key Top T = (c, W)" by (cases "descend key Top T")
  show ?thesis
  proof (cases W)
    case E
    from Insert_absent[OF m rb b d[unfolded E], of val] obtain t' T' where
      r: "Insert t key val = Some t'" "models t' T'" "rb_tree T'"
        "entries T' = upsert key val (entries T)" by auto
    from r(4) so have "bst T'" by (simp add: bst_def keys_def sorted_upsert)
    with r show ?thesis by blast
  next
    case (N l a cl k v r)
    from Insert_present[OF m b d[unfolded N], of val] obtain nd where
      r: "Insert t key val = Some (t\<lparr>heap := (heap t)(a := Some (nd\<lparr>Value := val\<rparr>))\<rparr>)"
        "models (t\<lparr>heap := (heap t)(a := Some (nd\<lparr>Value := val\<rparr>))\<rparr>) (plug c (N l a cl key val r))"
        "rb_tree T \<longrightarrow> rb_tree (plug c (N l a cl key val r))"
        "entries (plug c (N l a cl key val r)) = upsert key val (entries T)" by blast
    from r(4) so have "bst (plug c (N l a cl key val r))"
      by (simp add: bst_def keys_def sorted_upsert)
    with r rb show ?thesis by blast
  qed
qed

lemma Delete_tree:
  assumes m: "models t T" and rb: "rb_tree T" and b: "bst T"
  shows "\<exists>t' T'. Delete t key = Some (key \<in> fst ` set (entries T), t') \<and> models t' T'
            \<and> rb_tree T' \<and> bst T' \<and> entries T' = remove key (entries T)"
proof -
  from b have so: "sorted_wrt (<) (map fst (entries T))" by (simp add: bst_def keys_def)
  obtain c W where d: "descend key Top T = (c, W)" by (cases "descend key Top T")
  show ?thesis
  proof (cases W)
    case E
    with descend_present_iff[OF b, of key] d have ab: "key \<notin> set (keys T)" by simp
    with Search_descend[OF m, of key] d E have "Search t key = Some None" by simp
    then have "Delete t key = Some (False, t)" by (simp add: Delete_def)
    with ab m rb b show ?thesis
      by (intro exI[of _ t] exI[of _ T]) (simp add: keys_set remove_absent)
  next
    case (N l a cl k v r)
    with descend_present_iff[OF b, of key] d have pr: "key \<in> set (keys T)" by simp
    from Delete_present[OF m rb b d[unfolded N]] obtain t' T' where
      r: "Delete t key = Some (True, t')" "models t' T'" "rb_tree T'"
        "entries T' = remove key (entries T)" by blast
    from r(4) so have "bst T'" by (simp add: bst_def keys_def sorted_remove)
    with r pr show ?thesis
      by (intro exI[of _ t'] exI[of _ T']) (simp add: keys_set)
  qed
qed

text \<open>
  Claim C2. On every store that holds a red-black tree with increasing keys, and for every
  key \<open>k\<close> and value \<open>v\<close>: \<^verbatim>\<open>Insert(k, v)\<close> returns, and on the store it returns
  \<^verbatim>\<open>Search(k)\<close> returns a node of the tree with key \<open>k\<close> and value \<open>v\<close>;
  \<^verbatim>\<open>Delete(k)\<close> returns, and on the store it returns \<^verbatim>\<open>Search(k)\<close> returns nil. The
  same holds for \<^verbatim>\<open>Delete(k)\<close> right after \<^verbatim>\<open>Insert(k, v)\<close>.
\<close>

theorem insert_search_delete_round_trip:
  assumes "models t T" and "rb_tree T" and "bst T"
  shows "(\<exists>t1 T1 a nd. Insert t k v = Some t1 \<and> models t1 T1 \<and> Search t1 k = Some (Some a)
            \<and> a \<in> set (addrs T1) \<and> heap t1 a = Some nd \<and> Key nd = k \<and> Value nd = v
            \<and> (\<exists>b t3. Delete t1 k = Some (b, t3) \<and> Search t3 k = Some None))
         \<and> (\<exists>b t2. Delete t k = Some (b, t2) \<and> Search t2 k = Some None)"
proof -
  from Insert_tree[OF assms, of k v] obtain t1 T1 where
    i: "Insert t k v = Some t1" and m1: "models t1 T1" and rb1: "rb_tree T1" and b1: "bst T1"
    and e1: "entries T1 = upsert k v (entries T)" by blast
  from e1 have "(k, v) \<in> set (entries T1)" by (simp add: upsert_holds)
  from Search_found[OF m1 b1 this] obtain a nd where
    s1: "Search t1 k = Some (Some a)" "a \<in> set (addrs T1)" "heap t1 a = Some nd"
      "Key nd = k" "Value nd = v" by blast
  from Delete_tree[OF m1 rb1 b1, of k] obtain t3 T3 where
    d3: "Delete t1 k = Some (k \<in> fst ` set (entries T1), t3)" and m3: "models t3 T3"
    and b3: "bst T3" and e3: "entries T3 = remove k (entries T1)" by blast
  from e3 have "k \<notin> fst ` set (entries T3)" by (simp add: remove_keys)
  from Search_absent[OF m3 b3 this] have s3: "Search t3 k = Some None" .
  from Delete_tree[OF assms, of k] obtain t2 T2 where
    d2: "Delete t k = Some (k \<in> fst ` set (entries T), t2)" and m2: "models t2 T2"
    and b2: "bst T2" and e2: "entries T2 = remove k (entries T)" by blast
  from e2 have "k \<notin> fst ` set (entries T2)" by (simp add: remove_keys)
  from Search_absent[OF m2 b2 this] have s2: "Search t2 k = Some None" .
  from i m1 s1 d3 s3 d2 s2 show ?thesis by blast
qed

theorem insert_search_delete_round_trip_witness:
  "models ex_three (N (N E 1 red ''a'' 1 E) 0 black ''b'' 2 (N E 2 red ''c'' 3 E))
   \<and> rb_tree (N (N E 1 red ''a'' 1 E) 0 black ''b'' (2::nat) (N E 2 red ''c'' 3 E))
   \<and> bst (N (N E 1 red ''a'' 1 E) 0 black ''b'' (2::nat) (N E 2 red ''c'' 3 E))
   \<and> (\<exists>t1 T1 a nd. Insert ex_three ''d'' 9 = Some t1 \<and> models t1 T1
            \<and> Search t1 ''d'' = Some (Some a)
            \<and> a \<in> set (addrs T1) \<and> heap t1 a = Some nd \<and> Key nd = ''d'' \<and> Value nd = 9
            \<and> (\<exists>b t3. Delete t1 ''d'' = Some (b, t3) \<and> Search t3 ''d'' = Some None))
   \<and> (\<exists>b t2. Delete ex_three ''d'' = Some (b, t2) \<and> Search t2 ''d'' = Some None)
   \<and> map_option (\<lambda>t1. map_option (map_option (\<lambda>a. map_option Value (heap t1 a))) (Search t1 ''d''))
        (Insert ex_three ''d'' 9) = Some (Some (Some (Some 9)))
   \<and> map_option (\<lambda>(b, t2). (b, Search t2 ''b'')) (Delete ex_three ''b'') = Some (True, Some None)"
proof -
  have m: "models ex_three (N (N E 1 red ''a'' 1 E) 0 black ''b'' 2 (N E 2 red ''c'' 3 E))"
    by (simp add: models_def ex_three_def)
  have rb: "rb_tree (N (N E 1 red ''a'' 1 E) 0 black ''b'' (2::nat) (N E 2 red ''c'' 3 E))"
    by (simp add: rb_tree_def)
  have b: "bst (N (N E 1 red ''a'' 1 E) 0 black ''b'' (2::nat) (N E 2 red ''c'' 3 E))"
    by (simp add: bst_def keys_def)
  have c1: "map_option (\<lambda>t1. map_option (map_option (\<lambda>a. map_option Value (heap t1 a))) (Search t1 ''d''))
        (Insert ex_three ''d'' 9) = Some (Some (Some (Some 9)))"
    by code_simp
  have c2: "map_option (\<lambda>(b, t2). (b, Search t2 ''b'')) (Delete ex_three ''b'') = Some (True, Some None)"
    by code_simp
  from insert_search_delete_round_trip[OF m rb b, of "''d''" 9] m rb b c1 c2
  show ?thesis by blast
qed

section \<open>The element count\<close>

text \<open>
  Claim C3, as worded, fails: after \<^verbatim>\<open>Insert("a")\<close>, \<^verbatim>\<open>Delete("a")\<close>, \<^verbatim>\<open>Insert("a")\<close>
  one distinct key was ever inserted and one call of \<^verbatim>\<open>Delete\<close> returned \<open>True\<close>, so
  the count of the specification is 0, and \<^verbatim>\<open>Size()\<close> is 1.
\<close>

theorem size_as_worded_counterexample:
  "\<exists>bs t. run New [Ins ''a'' (1::nat), Del ''a'', Ins ''a'' 1] = Some (bs, t)
      \<and> bs = [True] \<and> Size t = 1
      \<and> spec_size [Ins ''a'' (1::nat), Del ''a'', Ins ''a'' 1] bs = 0
      \<and> Size t \<noteq> spec_size [Ins ''a'' (1::nat), Del ''a'', Ins ''a'' 1] bs"
proof -
  have "map_option (\<lambda>(bs, t). (bs, Size t)) (run New [Ins ''a'' (1::nat), Del ''a'', Ins ''a'' 1])
          = Some ([True], 1)"
    by code_simp
  then obtain t where "run New [Ins ''a'' (1::nat), Del ''a'', Ins ''a'' 1] = Some ([True], t)"
    "Size t = 1" by auto
  moreover have "spec_size [Ins ''a'' (1::nat), Del ''a'', Ins ''a'' 1] [True] = 0"
    by (simp add: spec_size_def)
  ultimately show ?thesis by simp
qed

text \<open>
  Claim C3, amended. After every sequence of calls on the empty tree, \<^verbatim>\<open>Size()\<close> is the
  number of keys that the tree holds, which is the number of calls of \<^verbatim>\<open>Insert\<close> with a
  key that was not held at the time of the call, minus the number of calls of \<^verbatim>\<open>Delete\<close>
  that returned \<open>True\<close>. Every call of \<^verbatim>\<open>Delete\<close> in the sequence returned \<open>True\<close>
  exactly when the key was held at the time of the call, and a further \<^verbatim>\<open>Delete(k)\<close>
  returns \<open>True\<close> exactly when \<open>k\<close> is held (when \<^verbatim>\<open>Search(k)\<close> is not nil), with the
  count one less in that case and the same otherwise.
\<close>

theorem size_counts_held_keys:
  "\<exists>bs t T. run New ops = Some (bs, t) \<and> models t T \<and> entries T = contents ops
      \<and> bs = expected [] ops
      \<and> Size t = int (length (entries T))
      \<and> Size t = int (new_inserts [] ops) - int (length (filter (\<lambda>b. b) bs))
      \<and> (\<forall>k. \<exists>t'. Delete t k = Some (k \<in> set (keys T), t')
               \<and> (k \<in> set (keys T)) = (Search t k \<noteq> Some None)
               \<and> Size t' = (if k \<in> set (keys T) then Size t - 1 else Size t))"
proof -
  from run_New[of ops] obtain t T where
    r: "run New ops = Some (expected [] ops, t)" and v: "valid t T" and
    e: "entries T = contents ops" and
    s: "size_of t = int (new_inserts [] ops) - int (length (filter (\<lambda>b. b) (expected [] ops)))"
    by blast
  from v have m: "models t T" and b: "bst T" and sz: "size_of t = int (length (entries T))"
    by (auto simp: valid_def)
  have d: "\<exists>t'. Delete t k = Some (k \<in> set (keys T), t')
               \<and> (k \<in> set (keys T)) = (Search t k \<noteq> Some None)
               \<and> Size t' = (if k \<in> set (keys T) then Size t - 1 else Size t)" for k
  proof -
    from Delete_valid[OF v, of k] obtain t' where
      "Delete t k = Some (k \<in> fst ` set (entries T), t')"
      "size_of t' = size_of t - (if k \<in> fst ` set (entries T) then 1 else 0)" by blast
    moreover have "(k \<in> set (keys T)) = (Search t k \<noteq> Some None)"
      using Search_descend[OF m, of k] descend_present_iff[OF b, of k]
      by (cases "snd (descend k Top T)") auto
    ultimately show ?thesis by (intro exI[of _ t']) (simp add: keys_set Size_def)
  qed
  from r m e s sz d show ?thesis
    by (intro exI[of _ "expected [] ops"] exI[of _ t] exI[of _ T]) (simp add: Size_def)
qed

theorem size_counts_held_keys_witness:
  "(\<exists>bs t T. run New [Ins ''a'' (1::nat), Del ''a'', Ins ''a'' 1, Ins ''b'' 2, Del ''c''] = Some (bs, t)
      \<and> models t T
      \<and> entries T = contents [Ins ''a'' (1::nat), Del ''a'', Ins ''a'' 1, Ins ''b'' 2, Del ''c'']
      \<and> bs = expected [] [Ins ''a'' (1::nat), Del ''a'', Ins ''a'' 1, Ins ''b'' 2, Del ''c'']
      \<and> Size t = int (length (entries T))
      \<and> Size t = int (new_inserts [] [Ins ''a'' (1::nat), Del ''a'', Ins ''a'' 1, Ins ''b'' 2, Del ''c''])
                   - int (length (filter (\<lambda>b. b) bs))
      \<and> (\<forall>k. \<exists>t'. Delete t k = Some (k \<in> set (keys T), t')
               \<and> (k \<in> set (keys T)) = (Search t k \<noteq> Some None)
               \<and> Size t' = (if k \<in> set (keys T) then Size t - 1 else Size t)))
   \<and> map_option (\<lambda>(bs, t). (bs, Size t))
        (run New [Ins ''a'' (1::nat), Del ''a'', Ins ''a'' 1, Ins ''b'' 2, Del ''c''])
      = Some ([True, False], 2)
   \<and> new_inserts [] [Ins ''a'' (1::nat), Del ''a'', Ins ''a'' 1, Ins ''b'' 2, Del ''c''] = 3
   \<and> contents [Ins ''a'' (1::nat), Del ''a'', Ins ''a'' 1, Ins ''b'' 2, Del ''c'']
      = [(''a'', 1), (''b'', 2)]"
proof -
  have c1: "map_option (\<lambda>(bs, t). (bs, Size t))
        (run New [Ins ''a'' (1::nat), Del ''a'', Ins ''a'' 1, Ins ''b'' 2, Del ''c''])
      = Some ([True, False], 2)"
    by code_simp
  have c2: "new_inserts [] [Ins ''a'' (1::nat), Del ''a'', Ins ''a'' 1, Ins ''b'' 2, Del ''c''] = 3"
    by simp
  have c3: "contents [Ins ''a'' (1::nat), Del ''a'', Ins ''a'' 1, Ins ''b'' 2, Del ''c'']
      = [(''a'', 1), (''b'', 2)]"
    by (simp add: contents_def)
  from size_counts_held_keys[of "[Ins ''a'' (1::nat), Del ''a'', Ins ''a'' 1, Ins ''b'' 2, Del ''c'']"]
    c1 c2 c3
  show ?thesis by blast
qed

section \<open>Parent links\<close>

lemma addr_focus:
  "a \<in> set (addrs W) \<Longrightarrow> \<exists>c' l cl k v r. plug c W = plug c' (N l a cl k v r)"
proof (induction W arbitrary: c)
  case E
  then show ?case by simp
next
  case (N l b cl k v r)
  from N.prems have "a \<in> set (addrs l) \<or> a = b \<or> a \<in> set (addrs r)" by auto
  then show ?case
  proof (elim disjE)
    assume "a \<in> set (addrs l)"
    from N.IH(1)[OF this, of "InL c b cl k v r"] show ?thesis by simp
  next
    assume "a = b"
    then show ?thesis by blast
  next
    assume "a \<in> set (addrs r)"
    from N.IH(2)[OF this, of "InR l b cl k v c"] show ?thesis by simp
  qed
qed

lemma addr_node:
  "a \<in> set (addrs T) \<Longrightarrow> \<exists>c l cl k v r. T = plug c (N l a cl k v r)"
  using addr_focus[of a T Top] by simp

lemma reach_sup: "models t (plug c (N l a cl k v r)) \<Longrightarrow> a \<in> reach t"
proof (induction c arbitrary: l a cl k v r)
  case Top
  then show ?case by (simp add: models_def reach.reach_root)
next
  case (InL c p pc kp vp S)
  from InL.prems have m: "models t (plug c (N (N l a cl k v r) p pc kp vp S))" by simp
  from InL.IH[OF m] have "p \<in> reach t" .
  from reach.reach_left[OF this read_focus[OF m]] show ?case by simp
next
  case (InR S p pc kp vp c)
  from InR.prems have m: "models t (plug c (N S p pc kp vp (N l a cl k v r)))" by simp
  from InR.IH[OF m] have "p \<in> reach t" .
  from reach.reach_right[OF this read_focus[OF m]] show ?case by simp
qed

lemma reach_sub:
  assumes m: "models t T"
  shows "a \<in> reach t \<Longrightarrow> a \<in> set (addrs T)"
proof (induction rule: reach.induct)
  case (reach_root a)
  with m show ?case by (cases T) (auto simp: models_def)
next
  case (reach_left a nd b)
  from addr_node[OF reach_left.IH] obtain c l cl k v r where T: "T = plug c (N l a cl k v r)"
    by blast
  from read_focus[OF m[unfolded T]] reach_left.hyps have "ptr l = Some b" by simp
  then have "b \<in> set (addrs l)" by (cases l) auto
  then show ?case by (simp add: T set_addrs_plug)
next
  case (reach_right a nd b)
  from addr_node[OF reach_right.IH] obtain c l cl k v r where T: "T = plug c (N l a cl k v r)"
    by blast
  from read_focus[OF m[unfolded T]] reach_right.hyps have "ptr r = Some b" by simp
  then have "b \<in> set (addrs r)" by (cases r) auto
  then show ?case by (simp add: T set_addrs_plug)
qed

lemma reach_addrs: "models t T \<Longrightarrow> reach t = set (addrs T)"
  using reach_sub[of t T] reach_sup[of t] addr_node[of _ T] by blast

lemma models_parent_links:
  assumes m: "models t T"
  shows "parent_links t"
proof -
  have p1: "\<exists>nd. heap t a = Some nd \<and> Parent nd = None" if "root t = Some a" for a
    using m that by (cases T) (auto simp: models_def)
  have p2: "\<exists>nd. heap t a = Some nd
          \<and> (\<forall>b. Left nd = Some b \<longrightarrow> (\<exists>nb. heap t b = Some nb \<and> Parent nb = Some a))
          \<and> (\<forall>b. Right nd = Some b \<longrightarrow> (\<exists>nb. heap t b = Some nb \<and> Parent nb = Some a))"
    if "a \<in> reach t" for a
  proof -
    from addr_node[OF reach_sub[OF m that]] obtain c l cl k v r where
      T: "T = plug c (N l a cl k v r)" by blast
    note h = read_focus[OF m[unfolded T]]
    have "\<exists>nb. heap t b = Some nb \<and> Parent nb = Some a" if "ptr l = Some b" for b
    proof -
      from that obtain ll lc lk lv lr where l: "l = N ll b lc lk lv lr" by (cases l) auto
      from m T l have "models t (plug (InL c a cl k v r) (N ll b lc lk lv lr))" by simp
      from read_focus[OF this] show ?thesis by simp
    qed
    moreover have "\<exists>nb. heap t b = Some nb \<and> Parent nb = Some a" if "ptr r = Some b" for b
    proof -
      from that obtain rl rc rk rv rr where r: "r = N rl b rc rk rv rr" by (cases r) auto
      from m T r have "models t (plug (InR l a cl k v c) (N rl b rc rk rv rr))" by simp
      from read_focus[OF this] show ?thesis by simp
    qed
    ultimately show ?thesis using h by simp
  qed
  have p3: "\<exists>nd p np. heap t a = Some nd \<and> Parent nd = Some p \<and> p \<in> reach t
              \<and> heap t p = Some np \<and> ((Left np = Some a) \<noteq> (Right np = Some a))"
    if "a \<in> reach t" and nr: "root t \<noteq> Some a" for a
  proof -
    from addr_node[OF reach_sub[OF m that(1)]] obtain c l cl k v r where
      T: "T = plug c (N l a cl k v r)" by blast
    note h = read_focus[OF m[unfolded T]]
    show ?thesis
    proof (cases c)
      case Top
      with m T nr show ?thesis by (simp add: models_def)
    next
      case (InL c' p pc kp vp S)
      with m T have m': "models t (plug c' (N (N l a cl k v r) p pc kp vp S))" by simp
      from m' have "a \<notin> set (addrs S)" by (auto simp: models_plug)
      then have "ptr S \<noteq> Some a" by (cases S) auto
      with h read_focus[OF m'] reach_sup[OF m'] InL show ?thesis by simp
    next
      case (InR S p pc kp vp c')
      with m T have m': "models t (plug c' (N S p pc kp vp (N l a cl k v r)))" by simp
      from m' have "a \<notin> set (addrs S)" by (auto simp: models_plug)
      then have "ptr S \<noteq> Some a" by (cases S) auto
      with h read_focus[OF m'] reach_sup[OF m'] InR show ?thesis by simp
    qed
  qed
  from p1 p2 p3 show ?thesis unfolding parent_links_def by blast
qed

text \<open>
  Claim C10. After every sequence of calls of \<^verbatim>\<open>Insert\<close> and \<^verbatim>\<open>Delete\<close> on the empty
  tree the \<^verbatim>\<open>Parent\<close> links of the store are consistent on the nodes that the root
  reaches: the root's \<^verbatim>\<open>Parent\<close> is nil; for every node \<open>n\<close>, a non-nil \<^verbatim>\<open>n.Left\<close> has
  \<^verbatim>\<open>Parent\<close> \<open>n\<close> and a non-nil \<^verbatim>\<open>n.Right\<close> has \<^verbatim>\<open>Parent\<close> \<open>n\<close>; and every node
  other than the root is exactly one of the two children of its \<^verbatim>\<open>Parent\<close>, which is a
  node of the tree. Every further call of \<^verbatim>\<open>Insert\<close> and of \<^verbatim>\<open>Delete\<close> returns a store
  with consistent links again. (Cells that a \<^verbatim>\<open>Delete\<close> has spliced out stay in the store
  with their old links; they are not reached from the root.)
\<close>

theorem parent_links_after_every_run:
  "\<exists>bs t. run New ops = Some (bs, t) \<and> parent_links t
      \<and> (\<forall>k v. \<exists>t'. Insert t k v = Some t' \<and> parent_links t')
      \<and> (\<forall>k. \<exists>b t'. Delete t k = Some (b, t') \<and> parent_links t')"
proof -
  from run_New[of ops] obtain t T where
    r: "run New ops = Some (expected [] ops, t)" and v: "valid t T" by blast
  from v have m: "models t T" by (simp add: valid_def)
  have i: "\<exists>t'. Insert t k v = Some t' \<and> parent_links t'" for k v
  proof -
    from Insert_valid[OF v, of k v] obtain t' T' where
      "Insert t k v = Some t'" "valid t' T'" by blast
    then show ?thesis using models_parent_links[of t' T'] by (auto simp: valid_def)
  qed
  have d: "\<exists>b t'. Delete t k = Some (b, t') \<and> parent_links t'" for k
  proof -
    from Delete_valid[OF v, of k] obtain t' T' where
      "Delete t k = Some (k \<in> fst ` set (entries T), t')" "valid t' T'" by blast
    then show ?thesis using models_parent_links[of t' T'] by (auto simp: valid_def)
  qed
  from r models_parent_links[OF m] i d show ?thesis by blast
qed

theorem parent_links_after_every_run_witness:
  "(\<exists>bs t. run New [Ins ''a'' (1::nat), Ins ''b'' 2, Ins ''c'' 3, Del ''b''] = Some (bs, t)
      \<and> parent_links t
      \<and> (\<forall>k v. \<exists>t'. Insert t k v = Some t' \<and> parent_links t')
      \<and> (\<forall>k. \<exists>b t'. Delete t k = Some (b, t') \<and> parent_links t'))
   \<and> map_option (\<lambda>(bs, t). (root t,
          map (\<lambda>a. map_option (\<lambda>n. (Key n, Parent n, Left n, Right n)) (heap t a)) [0, 2]))
        (run New [Ins ''a'' (1::nat), Ins ''b'' 2, Ins ''c'' 3, Del ''b''])
      = Some (Some 2, [Some (''a'', Some 2, None, None), Some (''c'', None, Some 0, None)])"
proof -
  have "map_option (\<lambda>(bs, t). (root t,
          map (\<lambda>a. map_option (\<lambda>n. (Key n, Parent n, Left n, Right n)) (heap t a)) [0, 2]))
        (run New [Ins ''a'' (1::nat), Ins ''b'' 2, Ins ''c'' 3, Del ''b''])
      = Some (Some 2, [Some (''a'', Some 2, None, None), Some (''c'', None, Some 0, None)])"
    by code_simp
  with parent_links_after_every_run[of "[Ins ''a'' (1::nat), Ins ''b'' 2, Ins ''c'' 3, Del ''b'']"]
  show ?thesis by blast
qed

section \<open>In-order traversal\<close>

lemma rep_cells:
  "rep h p T \<Longrightarrow> map (\<lambda>a. map_option (\<lambda>n. (Key n, Value n)) (h a)) (addrs T) = map Some (entries T)"
  by (induction T arbitrary: p) auto

text \<open>
  Claim C7. \<^verbatim>\<open>InOrder\<close> returns on every store that holds a tree, and what it returns is
  the visitor folded over the entries of the tree in the order left subtree, node, right
  subtree (the order in which \<open>entries\<close> and \<open>addrs\<close> list a tree): the visitor is
  applied once to the key and value of every node that the root reaches, and to nothing
  else. Consequently the keys it visits are strictly increasing when the tree is a search
  tree, and they are after every sequence of calls of \<^verbatim>\<open>Insert\<close> and \<^verbatim>\<open>Delete\<close> on the
  empty tree, whatever the order of the calls.
\<close>

theorem inorder_visits_left_node_right:
  assumes "models t T"
  shows "InOrder t fn acc = Some (fold (\<lambda>(k, v). fn k v) (entries T) acc)
     \<and> map (\<lambda>a. map_option (\<lambda>n. (Key n, Value n)) (heap t a)) (addrs T) = map Some (entries T)
     \<and> distinct (addrs T) \<and> set (addrs T) = reach t
     \<and> InOrder t (\<lambda>k v ks. ks @ [k]) [] = Some (keys T)
     \<and> (bst T \<longrightarrow> sorted_wrt (<) (keys T))
     \<and> (\<forall>ops :: 'b op list. \<exists>bs t' ks. run New ops = Some (bs, t')
            \<and> InOrder t' (\<lambda>k v ks. ks @ [k]) [] = Some ks \<and> sorted_wrt (<) ks)"
proof -
  from assms have r: "rep (heap t) None T" and d: "distinct (addrs T)" by (auto simp: models_def)
  have s: "\<exists>bs t' ks. run New ops = Some (bs, t')
            \<and> InOrder t' (\<lambda>k v ks. ks @ [k]) [] = Some ks \<and> sorted_wrt (<) ks"
    for ops :: "'b op list"
  proof -
    from run_New[of ops] obtain t' T' where
      r': "run New ops = Some (expected [] ops, t')" and v: "valid t' T'" by blast
    then have m': "models t' T'" and b': "bst T'" by (auto simp: valid_def)
    from r' InOrder_keys[OF m'] b' show ?thesis by (auto simp: bst_def)
  qed
  from InOrder_models[OF assms, of fn acc] rep_cells[OF r] d reach_addrs[OF assms]
    InOrder_keys[OF assms] s
  show ?thesis by (simp add: bst_def)
qed

theorem inorder_visits_left_node_right_witness:
  "models ex_three (N (N E 1 red ''a'' 1 E) 0 black ''b'' 2 (N E 2 red ''c'' 3 E))
   \<and> InOrder ex_three (\<lambda>k v acc. (k, v) # acc) []
        = Some (fold (\<lambda>(k, v). (\<lambda>k v acc. (k, v) # acc) k v)
             (entries (N (N E 1 red ''a'' 1 E) 0 black ''b'' (2::nat) (N E 2 red ''c'' 3 E))) [])
   \<and> InOrder ex_three (\<lambda>k v acc. (k, v) # acc) [] = Some [(''c'', 3), (''b'', 2), (''a'', 1)]
   \<and> InOrder ex_three (\<lambda>k v ks. ks @ [k]) [] = Some [''a'', ''b'', ''c'']
   \<and> sorted_wrt (<) (keys (N (N E 1 red ''a'' 1 E) 0 black ''b'' (2::nat) (N E 2 red ''c'' 3 E)))
   \<and> map_option (\<lambda>(bs, t). InOrder t (\<lambda>k v ks. ks @ [k]) [])
        (run New [Ins ''c'' (3::nat), Ins ''a'' 1, Ins ''d'' 4, Ins ''b'' 2, Del ''c''])
      = Some (Some [''a'', ''b'', ''d''])"
proof -
  have m: "models ex_three (N (N E 1 red ''a'' 1 E) 0 black ''b'' 2 (N E 2 red ''c'' 3 E))"
    by (simp add: models_def ex_three_def)
  have b: "bst (N (N E 1 red ''a'' 1 E) 0 black ''b'' (2::nat) (N E 2 red ''c'' 3 E))"
    by (simp add: bst_def keys_def)
  have c: "map_option (\<lambda>(bs, t). InOrder t (\<lambda>k v ks. ks @ [k]) [])
        (run New [Ins ''c'' (3::nat), Ins ''a'' 1, Ins ''d'' 4, Ins ''b'' 2, Del ''c''])
      = Some (Some [''a'', ''b'', ''d''])"
    by code_simp
  from inorder_visits_left_node_right[OF m, of "\<lambda>k v acc. (k, v) # acc" "[]", where ?'b = nat] m b c
  show ?thesis by (simp add: keys_def)
qed

section \<open>The recorded colour of Delete, and the absence of panics\<close>




text \<open>
  Claim C6. A call of \<^verbatim>\<open>Delete\<close> with a key that the tree holds finds the node \<open>a\<close>
  with that key, and the part of \<^verbatim>\<open>Delete\<close> before the fixup (\<open>delete_switch\<close>)
  records a colour \<open>oc\<close>. When the node has two children, \<open>oc\<close> is the colour that the
  in-order successor \<open>s\<close> (the leftmost node of the right subtree, found by \<^verbatim>\<open>minimum\<close>,
  whose entry is the first of the right subtree) had before the call, not the colour \<open>cl\<close>
  of the node \<open>a\<close>; after this part the successor stands at the place of \<open>a\<close> (same parent,
  same left subtree) with the colour \<open>cl\<close>. When a child is missing, \<open>oc\<close> is the colour
  of \<open>a\<close> itself. \<^verbatim>\<open>Delete\<close> then runs \<^verbatim>\<open>deleteFixup\<close> exactly when \<open>oc\<close> is black: when
  \<open>oc\<close> is red it returns the store as it is, with the count one less.
\<close>

theorem delete_records_successor_colour:
  assumes "models t T" and "bst T" and "key \<in> set (keys T)"
  shows "\<exists>c l a cl v r na oc x par t1.
      T = plug c (N l a cl key v r) \<and> Search t key = Some (Some a)
      \<and> heap t a = Some na \<and> Color na = cl
      \<and> delete_switch t (Some a) = Some (oc, x, par, t1)
      \<and> Delete t key = do { t2 \<leftarrow> (if oc = black then deleteFixup t1 x par else Some t1);
                             Some (True, t2\<lparr>size_of := size_of t2 - 1\<rparr>) }
      \<and> (oc = red \<longrightarrow> Delete t key = Some (True, t1\<lparr>size_of := size_of t1 - 1\<rparr>))
      \<and> (l = E \<or> r = E \<longrightarrow> oc = cl)
      \<and> (l \<noteq> E \<and> r \<noteq> E \<longrightarrow>
           (\<exists>cs s sc sk sv sr ns ns'.
               leftmost Top r = (cs, N E s sc sk sv sr)
               \<and> minimum t (ptr r) = Some (Some s)
               \<and> entries r = (sk, sv) # entries (plug cs sr)
               \<and> heap t s = Some ns \<and> Color ns = sc \<and> oc = sc
               \<and> models t1 (plug c (N l s cl sk sv (plug cs sr)))
               \<and> heap t1 s = Some ns' \<and> Color ns' = cl \<and> Parent ns' = cptr c
               \<and> Left ns' = ptr l))"
proof -
  obtain c W where d: "descend key Top T = (c, W)" by (cases "descend key Top T")
  with descend_present_iff[OF assms(2), of key] assms(3) have "W \<noteq> E" by simp
  with descend_result[OF d] obtain l a cl v r where W: "W = N l a cl key v r" by auto
  from descend_plug[OF d] W have T: "T = plug c (N l a cl key v r)" by simp
  from Search_descend[OF assms(1), of key] d W have s: "Search t key = Some (Some a)" by simp
  from assms(1) T have m0: "models t (plug c (N l a cl key v r))" by simp
  note ha = read_focus[OF m0]
  have del: "Delete t key = do { t2 \<leftarrow> (if oc = black then deleteFixup t1 x par else Some t1);
                                 Some (True, t2\<lparr>size_of := size_of t2 - 1\<rparr>) }"
    if "delete_switch t (Some a) = Some (oc, x, par, t1)" for oc x par t1
    using s that by (simp add: Delete_def)
  have "\<exists>oc x par t1. delete_switch t (Some a) = Some (oc, x, par, t1)
      \<and> (l = E \<or> r = E \<longrightarrow> oc = cl)
      \<and> (l \<noteq> E \<and> r \<noteq> E \<longrightarrow>
           (\<exists>cs s sc sk sv sr ns ns'.
               leftmost Top r = (cs, N E s sc sk sv sr)
               \<and> minimum t (ptr r) = Some (Some s)
               \<and> entries r = (sk, sv) # entries (plug cs sr)
               \<and> heap t s = Some ns \<and> Color ns = sc \<and> oc = sc
               \<and> models t1 (plug c (N l s cl sk sv (plug cs sr)))
               \<and> heap t1 s = Some ns' \<and> Color ns' = cl \<and> Parent ns' = cptr c
               \<and> Left ns' = ptr l))"
  proof (cases "l = E")
    case True
    from dsw_noleft[OF m0[unfolded True]] True show ?thesis by auto
  next
    case lne: False
    show ?thesis
    proof (cases "r = E")
      case True
      from dsw_noright[OF m0[unfolded True] lne] True show ?thesis by auto
    next
      case rne: False
      obtain cs M where lm: "leftmost Top r = (cs, M)" by (cases "leftmost Top r")
      from leftmost_shape[OF rne lm] obtain s' sc sk sv sr where M: "M = N E s' sc sk sv sr"
        by blast
      from leftmost_plug[OF lm] M have r: "r = plug cs (N E s' sc sk sv sr)" by simp
      from cleft_leftmost[of Top r] lm have cl0: "cleft cs = []" by simp
      from dsw_two[OF m0 lne rne lm[unfolded M]] obtain t1 where
        ds: "delete_switch t (Some a)
               = Some (sc, ptr sr, cptr (cplug (InR l s' cl sk sv c) cs), t1)" and
        m1: "models t1 (plug c (N l s' cl sk sv (plug cs sr)))" by blast
      from m0 have mr: "models t (plug (InR l a cl key v c) r)" by simp
      from minimum_leftmost[OF mr rne] leftmost_rel[of "InR l a cl key v c" r] lm M
      have mn: "minimum t (ptr r) = Some (Some s')" by simp
      from m0 r have "models t (plug (cplug (InR l a cl key v c) cs) (N E s' sc sk sv sr))"
        by (simp add: plug_cplug)
      note hs = read_focus[OF this]
      note hs1 = read_focus[OF m1]
      have er: "entries r = (sk, sv) # entries (plug cs sr)"
        by (simp add: r entries_plug cl0)
      from ds m1 lm M mn hs hs1 er lne rne show ?thesis by simp
    qed
  qed
  then obtain oc x par t1 where
    ds: "delete_switch t (Some a) = Some (oc, x, par, t1)" and
    one: "l = E \<or> r = E \<longrightarrow> oc = cl" and
    two: "l \<noteq> E \<and> r \<noteq> E \<longrightarrow>
           (\<exists>cs s sc sk sv sr ns ns'.
               leftmost Top r = (cs, N E s sc sk sv sr)
               \<and> minimum t (ptr r) = Some (Some s)
               \<and> entries r = (sk, sv) # entries (plug cs sr)
               \<and> heap t s = Some ns \<and> Color ns = sc \<and> oc = sc
               \<and> models t1 (plug c (N l s cl sk sv (plug cs sr)))
               \<and> heap t1 s = Some ns' \<and> Color ns' = cl \<and> Parent ns' = cptr c
               \<and> Left ns' = ptr l)" by blast
  from del[OF ds] have red: "oc = red \<longrightarrow> Delete t key = Some (True, t1\<lparr>size_of := size_of t1 - 1\<rparr>)"
    by simp
  from T s ha ds del[OF ds] red one two show ?thesis
    by (intro exI[of _ c] exI[of _ l] exI[of _ a] exI[of _ cl] exI[of _ v] exI[of _ r]
          exI[of _ "\<lparr>Key = key, Value = v, Color = cl, Parent = cptr c, Left = ptr l, Right = ptr r\<rparr>"]
          exI[of _ oc] exI[of _ x] exI[of _ par] exI[of _ t1]) simp
qed


theorem delete_records_successor_colour_witness:
  "models ex_three (N (N E 1 red ''a'' 1 E) 0 black ''b'' 2 (N E 2 red ''c'' 3 E))
   \<and> bst (N (N E 1 red ''a'' 1 E) 0 black ''b'' (2::nat) (N E 2 red ''c'' 3 E))
   \<and> ''b'' \<in> set (keys (N (N E 1 red ''a'' 1 E) 0 black ''b'' (2::nat) (N E 2 red ''c'' 3 E)))
   \<and> (\<exists>c l a cl v r na oc x par t1.
      N (N E 1 red ''a'' 1 E) 0 black ''b'' 2 (N E 2 red ''c'' 3 E) = plug c (N l a cl ''b'' v r)
      \<and> Search ex_three ''b'' = Some (Some a)
      \<and> heap ex_three a = Some na \<and> Color na = cl
      \<and> delete_switch ex_three (Some a) = Some (oc, x, par, t1)
      \<and> Delete ex_three ''b''
           = do { t2 \<leftarrow> (if oc = black then deleteFixup t1 x par else Some t1);
                  Some (True, t2\<lparr>size_of := size_of t2 - 1\<rparr>) }
      \<and> (oc = red \<longrightarrow> Delete ex_three ''b'' = Some (True, t1\<lparr>size_of := size_of t1 - 1\<rparr>))
      \<and> (l = E \<or> r = E \<longrightarrow> oc = cl)
      \<and> (l \<noteq> E \<and> r \<noteq> E \<longrightarrow>
           (\<exists>cs s sc sk sv sr ns ns'.
               leftmost Top r = (cs, N E s sc sk sv sr)
               \<and> minimum ex_three (ptr r) = Some (Some s)
               \<and> entries r = (sk, sv) # entries (plug cs sr)
               \<and> heap ex_three s = Some ns \<and> Color ns = sc \<and> oc = sc
               \<and> models t1 (plug c (N l s cl sk sv (plug cs sr)))
               \<and> heap t1 s = Some ns' \<and> Color ns' = cl \<and> Parent ns' = cptr c
               \<and> Left ns' = ptr l)))
   \<and> map_option (\<lambda>(oc, x, par, t1). (oc, x, par, map_option Color (heap ex_three 0),
          map_option Color (heap ex_three 2),
          map_option (\<lambda>n. (Color n, Parent n, Left n, Right n)) (heap t1 2)))
        (delete_switch ex_three (Some 0))
      = Some (red, None, Some 2, Some black, Some red, Some (black, None, Some 1, None))
   \<and> map_option (\<lambda>(b, t2). (b, Size t2, root t2)) (Delete ex_three ''b'') = Some (True, 2, Some 2)"
proof -
  have m: "models ex_three (N (N E 1 red ''a'' 1 E) 0 black ''b'' 2 (N E 2 red ''c'' 3 E))"
    by (simp add: models_def ex_three_def)
  have b: "bst (N (N E 1 red ''a'' 1 E) 0 black ''b'' (2::nat) (N E 2 red ''c'' 3 E))"
    by (simp add: bst_def keys_def)
  have k: "''b'' \<in> set (keys (N (N E 1 red ''a'' 1 E) 0 black ''b'' (2::nat) (N E 2 red ''c'' 3 E)))"
    by (simp add: keys_def)
  have c1: "map_option (\<lambda>(oc, x, par, t1). (oc, x, par, map_option Color (heap ex_three 0),
          map_option Color (heap ex_three 2),
          map_option (\<lambda>n. (Color n, Parent n, Left n, Right n)) (heap t1 2)))
        (delete_switch ex_three (Some 0))
      = Some (red, None, Some 2, Some black, Some red, Some (black, None, Some 1, None))"
    by code_simp
  have c2: "map_option (\<lambda>(b, t2). (b, Size t2, root t2)) (Delete ex_three ''b'') = Some (True, 2, Some 2)"
    by code_simp
  from delete_records_successor_colour[OF m b k] m b k c1 c2 show ?thesis by blast
qed



end
